theory Spec2Isabelle
  imports Complex_Main "HOL-Library.Multiset"
begin

section \<open>The JavaScript Map, as an insertion-ordered association list\<close>

text \<open>
  Both caches of the preload pipeline are built on a JavaScript \<open>Map\<close>, whose iteration
  order is the insertion order of its keys: \<open>set\<close> on a key already present overwrites the
  value in place, \<open>set\<close> on a new key appends, \<open>keys().next().value\<close> is the oldest key.
  The model keeps exactly that: a list of key/value pairs, oldest first.
\<close>

type_synonym ('k, 'v) jsmap = "('k \<times> 'v) list"

definition map_has :: "('k, 'v) jsmap \<Rightarrow> 'k \<Rightarrow> bool" where
  "map_has m k = (map_of m k \<noteq> None)"

definition map_get :: "('k, 'v) jsmap \<Rightarrow> 'k \<Rightarrow> 'v option" where
  "map_get m k = map_of m k"

definition map_delete :: "('k, 'v) jsmap \<Rightarrow> 'k \<Rightarrow> ('k, 'v) jsmap" where
  "map_delete m k = filter (\<lambda>e. fst e \<noteq> k) m"

definition map_set :: "('k, 'v) jsmap \<Rightarrow> 'k \<Rightarrow> 'v \<Rightarrow> ('k, 'v) jsmap" where
  "map_set m k v =
     (if map_has m k then map (\<lambda>e. if fst e = k then (k, v) else e) m
      else m @ [(k, v)])"

definition map_first_key :: "('k, 'v) jsmap \<Rightarrow> 'k option" where
  "map_first_key m = (case m of [] \<Rightarrow> None | e # _ \<Rightarrow> Some (fst e))"

definition map_keys :: "('k, 'v) jsmap \<Rightarrow> 'k list" where
  "map_keys m = map fst m"

text \<open>\<open>String.prototype.startsWith\<close>.\<close>

definition startsWith :: "string \<Rightarrow> string \<Rightarrow> bool" where
  "startsWith s p = (take (length p) s = p)"

section \<open>LRUCache of the image preloader (useImagePreloader.ts)\<close>

text \<open>
  The cache holds \<open>HTMLImageElement\<close>s (the image cache) or plain flag objects (the
  poster bookkeeping of the hook). An image element is known by its identity; the cache
  tells the two kinds apart with \<open>instanceof HTMLImageElement\<close>.
\<close>

datatype cache_value = HTMLImageElement nat | VideoFlags bool bool

text \<open>
  \<open>cache\<close> and \<open>maxSize\<close> are the fields of the class. \<open>released\<close> records the effect the
  class has on objects outside itself: the identities of the image elements whose \<open>src\<close>
  and \<open>srcset\<close> it has reset to the empty string, in program order.
\<close>

record lru_cache =
  cache :: "(string, cache_value) jsmap"
  maxSize :: nat
  released :: "nat list"

definition new_LRUCache :: "nat \<Rightarrow> lru_cache" where
  "new_LRUCache n = \<lparr>cache = [], maxSize = n, released = []\<rparr>"

text \<open>The clean-up guarded by \<open>value instanceof HTMLImageElement\<close>.\<close>

definition cleanup :: "cache_value option \<Rightarrow> lru_cache \<Rightarrow> lru_cache" where
  "cleanup value c =
     (case value of
        Some (HTMLImageElement i) \<Rightarrow> c\<lparr>released := released c @ [i]\<rparr>
      | _ \<Rightarrow> c)"

definition lru_get :: "lru_cache \<Rightarrow> string \<Rightarrow> cache_value option \<times> lru_cache" where
  "lru_get c key =
     (case map_get (cache c) key of
        None \<Rightarrow> (None, c)
      | Some v \<Rightarrow> (Some v, c\<lparr>cache := map_set (map_delete (cache c) key) key v\<rparr>))"

definition lru_set :: "lru_cache \<Rightarrow> string \<Rightarrow> cache_value \<Rightarrow> lru_cache" where
  "lru_set c key v =
     (let c1 =
        (if map_has (cache c) key then c\<lparr>cache := map_delete (cache c) key\<rparr>
         else if length (cache c) \<ge> maxSize c then
           (case map_first_key (cache c) of
              None \<Rightarrow> c
            | Some firstKey \<Rightarrow>
                (let removedValue = map_get (cache c) firstKey
                 in cleanup removedValue (c\<lparr>cache := map_delete (cache c) firstKey\<rparr>)))
         else c)
      in c1\<lparr>cache := map_set (cache c1) key v\<rparr>)"

definition lru_has :: "lru_cache \<Rightarrow> string \<Rightarrow> bool" where
  "lru_has c key = map_has (cache c) key"

definition lru_delete :: "lru_cache \<Rightarrow> string \<Rightarrow> bool \<times> lru_cache" where
  "lru_delete c key =
     (let c1 = cleanup (map_get (cache c) key) c
      in (map_has (cache c1) key, c1\<lparr>cache := map_delete (cache c1) key\<rparr>))"

fun cleanup_all :: "(string, cache_value) jsmap \<Rightarrow> lru_cache \<Rightarrow> lru_cache" where
  "cleanup_all [] c = c"
| "cleanup_all (e # es) c = cleanup_all es (cleanup (Some (snd e)) c)"

definition lru_clear :: "lru_cache \<Rightarrow> lru_cache" where
  "lru_clear c = (cleanup_all (cache c) c)\<lparr>cache := []\<rparr>"

definition lru_size :: "lru_cache \<Rightarrow> nat" where
  "lru_size c = length (cache c)"

definition lru_keys :: "lru_cache \<Rightarrow> string list" where
  "lru_keys c = map_keys (cache c)"

definition IMAGE_CACHE_MAX_SIZE :: nat where
  "IMAGE_CACHE_MAX_SIZE = 200"

definition imageCache0 :: lru_cache where
  "imageCache0 = new_LRUCache IMAGE_CACHE_MAX_SIZE"

text \<open>Any use of a cache: a sequence of calls of its mutating methods.\<close>

datatype lru_call = Get string | Set string cache_value | Delete string | Clear

fun lru_apply :: "lru_cache \<Rightarrow> lru_call \<Rightarrow> lru_cache" where
  "lru_apply c (Get k) = snd (lru_get c k)"
| "lru_apply c (Set k v) = lru_set c k v"
| "lru_apply c (Delete k) = snd (lru_delete c k)"
| "lru_apply c Clear = lru_clear c"

definition lru_calls :: "lru_cache \<Rightarrow> lru_call list \<Rightarrow> lru_cache" where
  "lru_calls c cs = foldl lru_apply c cs"

text \<open>The representation invariant of a cache: keys are unique, the count is bounded.\<close>

definition lru_inv :: "lru_cache \<Rightarrow> bool" where
  "lru_inv c \<longleftrightarrow> distinct (map fst (cache c)) \<and> length (cache c) \<le> maxSize c"

section \<open>VideoMetadataLRUCache (lib/videoUtils.ts)\<close>

text \<open>
  The values of the metadata cache. Widths, heights and durations are natural numbers
  here; strings are ASCII, so that the byte size of a \<open>Blob\<close> of a string and the
  \<open>length\<close> of the string are both the length of the list.
\<close>

record video_metadata =
  width :: nat
  height :: nat
  duration :: nat
  posterUrl :: string

record video_cache =
  vcache :: "(string, video_metadata) jsmap"
  vmaxSize :: nat
  maxMemoryMB :: nat

definition new_VideoMetadataLRUCache :: "nat \<Rightarrow> nat \<Rightarrow> video_cache" where
  "new_VideoMetadataLRUCache n mb = \<lparr>vcache = [], vmaxSize = n, maxMemoryMB = mb\<rparr>"

definition VIDEO_METADATA_CACHE_SIZE :: nat where
  "VIDEO_METADATA_CACHE_SIZE = 200"

definition VIDEO_METADATA_MEMORY_LIMIT_MB :: nat where
  "VIDEO_METADATA_MEMORY_LIMIT_MB = 150"

definition videoMetadataCache0 :: video_cache where
  "videoMetadataCache0 =
     new_VideoMetadataLRUCache VIDEO_METADATA_CACHE_SIZE VIDEO_METADATA_MEMORY_LIMIT_MB"

text \<open>The number of decimal digits of a natural number.\<close>

fun digits :: "nat \<Rightarrow> nat" where
  "digits n = (if n < 10 then 1 else Suc (digits (n div 10)))"

text \<open>
  The byte size of \<open>JSON.stringify({width, height, duration})\<close>: the 32 characters of
  \<open>{"width":,"height":,"duration":}\<close> and the digits of the three numbers. The numbers
  are natural numbers here: a duration with a fractional part, which JavaScript prints
  with more characters, is outside the model.
\<close>

definition json_bytes :: "video_metadata \<Rightarrow> nat" where
  "json_bytes v = 32 + digits (width v) + digits (height v) + digits (duration v)"

text \<open>What one iteration of the loop of \<open>getMemoryUsage\<close> adds to \<open>totalSize\<close>.\<close>

definition entry_bytes :: "string \<times> video_metadata \<Rightarrow> nat" where
  "entry_bytes e =
     length (fst e)
     + (if posterUrl (snd e) \<noteq> []
        then (if startsWith (posterUrl (snd e)) ''data:'' then length (posterUrl (snd e))
              else 1024)
        else 0)
     + json_bytes (snd e)"

definition totalSize :: "video_cache \<Rightarrow> nat" where
  "totalSize c = sum_list (map entry_bytes (vcache c))"

definition getMemoryUsage :: "video_cache \<Rightarrow> rat" where
  "getMemoryUsage c = of_nat (totalSize c) / (1024 * 1024)"

text \<open>
  \<open>Math.ceil(this.cache.size * 0.2)\<close> in double arithmetic. The double nearest to 0.2
  is \<open>3602879701896397 / 2^54\<close>; the product with the size is rounded to 53 significant
  bits, ties to even, and the ceiling of that double is taken.
\<close>

fun bit_length :: "nat \<Rightarrow> nat" where
  "bit_length n = (if n = 0 then 0 else Suc (bit_length (n div 2)))"

definition round53 :: "nat \<Rightarrow> nat" where
  "round53 m =
     (let l = bit_length m in
      if l \<le> 53 then m
      else
        (let sh = l - 53; q = m div 2 ^ sh; r = m mod 2 ^ sh; half = 2 ^ (sh - 1)
         in (if r > half \<or> (r = half \<and> odd q) then q + 1 else q) * 2 ^ sh))"

definition entriesToEvict :: "nat \<Rightarrow> nat" where
  "entriesToEvict n = (round53 (n * 3602879701896397) + 2 ^ 54 - 1) div 2 ^ 54"

text \<open>The \<open>while\<close> loop of \<open>evictIfNeeded\<close>: drop the oldest entry while the cache is full.\<close>

function evict_while_full :: "video_cache \<Rightarrow> video_cache" where
  "evict_while_full c =
     (if length (vcache c) \<ge> vmaxSize c then
        (case map_first_key (vcache c) of
           Some firstKey \<Rightarrow> evict_while_full (c\<lparr>vcache := map_delete (vcache c) firstKey\<rparr>)
         | None \<Rightarrow> c)
      else c)"
  by pat_completeness auto
termination
proof (relation "measure (\<lambda>c. length (vcache c))")
  show "wf (measure (\<lambda>c. length (vcache c)))" by simp
next
  fix c :: video_cache and firstKey
  assume "map_first_key (vcache c) = Some firstKey"
  then obtain e es where "vcache c = e # es" and "firstKey = fst e"
    by (cases "vcache c") (auto simp: map_first_key_def)
  then have "length (map_delete (vcache c) firstKey) \<le> length es"
    by (simp add: map_delete_def)
  with \<open>vcache c = e # es\<close>
  show "(c\<lparr>vcache := map_delete (vcache c) firstKey\<rparr>, c) \<in> measure (\<lambda>c. length (vcache c))"
    by simp
qed

text \<open>The \<open>for\<close> loop: \<open>k\<close> rounds, each dropping the oldest entry, as long as there is one.\<close>

fun evict_oldest :: "nat \<Rightarrow> (string, video_metadata) jsmap \<Rightarrow> (string, video_metadata) jsmap" where
  "evict_oldest 0 m = m"
| "evict_oldest (Suc k) m =
     (case map_first_key m of
        None \<Rightarrow> m
      | Some firstKey \<Rightarrow> evict_oldest k (map_delete m firstKey))"

definition evictIfNeeded :: "video_cache \<Rightarrow> video_cache" where
  "evictIfNeeded c =
     (let c1 = evict_while_full c;
          memoryUsage = getMemoryUsage c1
      in if memoryUsage > of_nat (maxMemoryMB c1)
         then c1\<lparr>vcache := evict_oldest (entriesToEvict (length (vcache c1))) (vcache c1)\<rparr>
         else c1)"

definition video_set :: "video_cache \<Rightarrow> string \<Rightarrow> video_metadata \<Rightarrow> video_cache" where
  "video_set c key v =
     (let c1 = (if map_has (vcache c) key then c\<lparr>vcache := map_delete (vcache c) key\<rparr>
                else evictIfNeeded c)
      in c1\<lparr>vcache := map_set (vcache c1) key v\<rparr>)"

definition video_sets :: "video_cache \<Rightarrow> (string \<times> video_metadata) list \<Rightarrow> video_cache" where
  "video_sets c kvs = foldl (\<lambda>c kv. video_set c (fst kv) (snd kv)) c kvs"

text \<open>
  A concrete load: 4K videos, each with a JPEG poster whose data URL has two million
  characters after the prefix, cached under keys of distinct lengths.
\<close>

definition poster_of_length :: "nat \<Rightarrow> string" where
  "poster_of_length n = ''data:image/jpeg;base64,'' @ replicate n (CHR ''A'')"

definition uhd_metadata :: video_metadata where
  "uhd_metadata = \<lparr>width = 3840, height = 2160, duration = 60, posterUrl = poster_of_length 2000000\<rparr>"

definition video_key :: "nat \<Rightarrow> string" where
  "video_key i = replicate (Suc i) (CHR ''v'') @ ''.mp4''"

definition uhd_videos :: "nat \<Rightarrow> (string \<times> video_metadata) list" where
  "uhd_videos n = map (\<lambda>i. (video_key i, uhd_metadata)) [0..<n]"

section \<open>ThrottledPreloadQueue and the hook around it (useImagePreloader.ts)\<close>

text \<open>
  Numbers: \<open>priority\<close> is an integer (the hook floors it), \<open>distance\<close> and the geometry of
  an element are rationals, times are milliseconds as \<open>Date.now()\<close> gives them. The
  comparator of \<open>sortQueue\<close> only tests differences against zero and returns them, and a
  difference of two finite numbers is zero exactly when they are equal, so exact numbers
  decide every branch as the doubles of the source do.
\<close>

datatype scroll_direction = Up | Down | Idle

record queue_item =
  url :: string
  priority :: int
  distance :: rat

text \<open>The arrow function given to \<open>this.queue.sort\<close>.\<close>

definition compare_items :: "scroll_direction \<Rightarrow> queue_item \<Rightarrow> queue_item \<Rightarrow> rat" where
  "compare_items dir a b =
     (let priorityDiff = of_int (priority b - priority a) in
      if priorityDiff \<noteq> 0 then priorityDiff
      else
        (let distanceDiff = distance a - distance b in
         if distanceDiff \<noteq> 0 then distanceDiff
         else if dir = Down then distance a - distance b
         else if dir = Up then distance b - distance a
         else 0))"

text \<open>
  \<open>Array.prototype.sort\<close> with a comparator is a stable sort: elements the comparator
  calls equal keep their order. Insertion from the right, placing an element before the
  first one it does not exceed, is such a sort.
\<close>

fun insert_by :: "('a \<Rightarrow> 'a \<Rightarrow> rat) \<Rightarrow> 'a \<Rightarrow> 'a list \<Rightarrow> 'a list" where
  "insert_by cmp x [] = [x]"
| "insert_by cmp x (y # ys) = (if cmp x y \<le> 0 then x # y # ys else y # insert_by cmp x ys)"

definition sort_by :: "('a \<Rightarrow> 'a \<Rightarrow> rat) \<Rightarrow> 'a list \<Rightarrow> 'a list" where
  "sort_by cmp xs = foldr (insert_by cmp) xs []"

text \<open>A JavaScript \<open>Set\<close> of strings: an insertion-ordered list without repetition.\<close>

definition set_add :: "string list \<Rightarrow> string \<Rightarrow> string list" where
  "set_add xs x = (if x \<in> set xs then xs else xs @ [x])"

definition set_delete :: "string list \<Rightarrow> string \<Rightarrow> string list" where
  "set_delete xs x = filter (\<lambda>y. y \<noteq> x) xs"

text \<open>
  The module state of the hook. \<open>queue\<close>, \<open>loading\<close> and \<open>lastProcessTime\<close> are the fields of
  the one \<open>ThrottledPreloadQueue\<close>; \<open>imageCache\<close>, \<open>videoCacheMetadata\<close>, \<open>scrollDirection\<close>
  and \<open>lastScrollY\<close> are the module variables; \<open>loadedImages\<close> is the React state of that
  name. The other three fields record what the code hands to its environment:
  \<open>timers\<close> holds the due times of the \<open>processQueue\<close> callbacks given to \<open>setTimeout\<close>,
  \<open>decoding\<close> the \<open>imageDecoderService.decodeImage(url)\<close> calls whose promise has not
  settled, \<open>dispatched\<close> every such call ever made, in order.
\<close>

record preloader =
  queue :: "queue_item list"
  loading :: "string list"
  lastProcessTime :: int
  imageCache :: lru_cache
  videoCacheMetadata :: lru_cache
  scrollDirection :: scroll_direction
  lastScrollY :: rat
  loadedImages :: "string list"
  timers :: "int list"
  decoding :: "string list"
  dispatched :: "string list"

definition maxConcurrent :: nat where
  "maxConcurrent = 4"

definition throttleDelay :: int where
  "throttleDelay = 100"

definition VIDEO_METADATA_CACHE_MAX_SIZE :: nat where
  "VIDEO_METADATA_CACHE_MAX_SIZE = 100"

definition preloader0 :: preloader where
  "preloader0 =
     \<lparr>queue = [], loading = [], lastProcessTime = 0,
      imageCache = imageCache0,
      videoCacheMetadata = new_LRUCache VIDEO_METADATA_CACHE_MAX_SIZE,
      scrollDirection = Idle, lastScrollY = 0, loadedImages = [],
      timers = [], decoding = [], dispatched = []\<rparr>"

definition sortQueue :: "preloader \<Rightarrow> preloader" where
  "sortQueue s = s\<lparr>queue := sort_by (compare_items (scrollDirection s)) (queue s)\<rparr>"

text \<open>
  \<open>processQueue\<close> up to its \<open>await\<close>: the throttle, the concurrency check, the shift of the
  head, the cache check, and the start of the decode. \<open>now\<close> is what \<open>Date.now()\<close> returns.
\<close>

definition processQueue :: "int \<Rightarrow> preloader \<Rightarrow> preloader" where
  "processQueue now s =
     (if now - lastProcessTime s < throttleDelay
      then s\<lparr>timers := timers s @ [now + throttleDelay]\<rparr>
      else if length (loading s) \<ge> maxConcurrent \<or> queue s = [] then s
      else
        (case queue s of
           [] \<Rightarrow> s\<lparr>lastProcessTime := now\<rparr>
         | item # rest \<Rightarrow>
             (let s1 = s\<lparr>lastProcessTime := now, queue := rest\<rparr> in
              if lru_has (imageCache s1) (url item) then s1
              else s1\<lparr>loading := set_add (loading s1) (url item),
                      decoding := decoding s1 @ [url item],
                      dispatched := dispatched s1 @ [url item]\<rparr>)))"

text \<open>
  What the promise of \<open>decodeImage\<close> settles with: a result that carries an image (the
  element \<open>createImageFromResult\<close> makes of it), a result that carries none, or a
  rejection.
\<close>

datatype decode_outcome = Decoded "nat option" | Failed

text \<open>
  The rest of \<open>processQueue\<close>, run when the decode of \<open>u\<close> settles: the \<open>then\<close> of
  \<open>preloadImage\<close> stores the image, the \<open>finally\<close> removes \<open>u\<close> from \<open>loading\<close> and asks
  for another \<open>processQueue\<close> in 50 ms. It can only run for a decode that is in flight.
\<close>

definition decodeSettled :: "int \<Rightarrow> string \<Rightarrow> decode_outcome \<Rightarrow> preloader \<Rightarrow> preloader" where
  "decodeSettled now u outcome s =
     (if u \<notin> set (decoding s) then s
      else
        (let s1 = s\<lparr>decoding := remove1 u (decoding s)\<rparr>;
             s2 = (case outcome of
                     Decoded (Some img) \<Rightarrow>
                       s1\<lparr>imageCache := lru_set (imageCache s1) u (HTMLImageElement img)\<rparr>
                   | _ \<Rightarrow> s1)
         in s2\<lparr>loading := set_delete (loading s2) u, timers := timers s2 @ [now + 50]\<rparr>))"

definition add :: "int \<Rightarrow> string \<Rightarrow> int \<Rightarrow> rat \<Rightarrow> preloader \<Rightarrow> preloader" where
  "add now u p d s =
     (if u \<in> set (loading s) \<or> lru_has (imageCache s) u then s
      else
        (let s1 = s\<lparr>queue := filter (\<lambda>item. url item \<noteq> u) (queue s)\<rparr>;
             s2 = s1\<lparr>queue := queue s1 @ [\<lparr>url = u, priority = p, distance = d\<rparr>]\<rparr>
         in processQueue now (sortQueue s2)))"

text \<open>A \<open>setTimeout\<close> callback runs \<open>processQueue\<close> once its due time has come.\<close>

definition timerFired :: "int \<Rightarrow> preloader \<Rightarrow> preloader" where
  "timerFired now s =
     (case filter (\<lambda>t. t \<le> now) (timers s) of
        [] \<Rightarrow> s
      | t # _ \<Rightarrow> processQueue now (s\<lparr>timers := remove1 t (timers s)\<rparr>))"

definition queue_clear :: "preloader \<Rightarrow> preloader" where
  "queue_clear s = s\<lparr>queue := [], loading := []\<rparr>"

definition clearCache :: "preloader \<Rightarrow> preloader" where
  "clearCache s =
     (queue_clear (s\<lparr>imageCache := lru_clear (imageCache s),
                     videoCacheMetadata := lru_clear (videoCacheMetadata s)\<rparr>))
       \<lparr>loadedImages := []\<rparr>"

definition updateScrollDirection :: "rat \<Rightarrow> preloader \<Rightarrow> preloader" where
  "updateScrollDirection currentScrollY s =
     (let s1 = (if currentScrollY > lastScrollY s then s\<lparr>scrollDirection := Down\<rparr>
                else if currentScrollY < lastScrollY s then s\<lparr>scrollDirection := Up\<rparr>
                else s)
      in s1\<lparr>lastScrollY := currentScrollY\<rparr>)"

definition scrollIdle :: "preloader \<Rightarrow> preloader" where
  "scrollIdle s = s\<lparr>scrollDirection := Idle\<rparr>"

text \<open>The hook's \<open>preloadImage\<close>. Every branch returns \<open>Promise.resolve()\<close>.\<close>

datatype promise_state = Resolved | Rejected | Pending

definition preloadImage :: "int \<Rightarrow> string \<Rightarrow> int \<Rightarrow> preloader \<Rightarrow> promise_state \<times> preloader" where
  "preloadImage now u p s =
     (if u = [] \<or> startsWith u ''data:'' then (Resolved, s)
      else if lru_has (imageCache s) u
      then (Resolved, s\<lparr>loadedImages := set_add (loadedImages s) u\<rparr>)
      else (Resolved, add now u p 0 s))"

text \<open>Distance of an element's centre from the centre of the viewport.\<close>

record rect =
  rect_top :: rat
  rect_height :: rat

definition calculateViewportDistance :: "rat \<Rightarrow> rect \<Rightarrow> rat" where
  "calculateViewportDistance innerHeight r =
     (let viewportCenter = innerHeight / 2;
          elementCenter = rect_top r + rect_height r / 2
      in \<bar>elementCenter - viewportCenter\<bar>)"

text \<open>Everything that can happen to the module state, and a run of such events.\<close>

datatype event =
    Add int string int rat
  | PreloadImage int string int
  | TimerFired int
  | DecodeSettled int string decode_outcome
  | Scroll rat
  | ScrollIdle
  | CacheDelete string
  | ClearCache

fun step :: "preloader \<Rightarrow> event \<Rightarrow> preloader" where
  "step s (Add now u p d) = add now u p d s"
| "step s (PreloadImage now u p) = snd (preloadImage now u p s)"
| "step s (TimerFired now) = timerFired now s"
| "step s (DecodeSettled now u outcome) = decodeSettled now u outcome s"
| "step s (Scroll y) = updateScrollDirection y s"
| "step s ScrollIdle = scrollIdle s"
| "step s (CacheDelete u) = s\<lparr>imageCache := snd (lru_delete (imageCache s) u)\<rparr>"
| "step s ClearCache = clearCache s"

definition run :: "event list \<Rightarrow> preloader" where
  "run evs = foldl step preloader0 evs"

section \<open>ImageDecoderService (services/imageDecoderService.ts)\<close>

text \<open>
  A request id is the string \<open>decode_\<close> followed by the decimal digits of the counter;
  the model keeps the number. The counter is a JavaScript number: \<open>++\<close> adds one up to
  \<open>2^53\<close>, where the sum rounds back to \<open>2^53\<close>.
\<close>

definition js_incr :: "nat \<Rightarrow> nat" where
  "js_incr n = (if n < 2 ^ 53 then n + 1 else n)"

record worker_response =
  resp_id :: nat
  success :: bool
  resp_imageBitmap :: "nat option"
  resp_error :: "string option"
  fallbackImageData :: "(nat \<times> nat) option"

datatype decoded_image_result =
  DecodedImageResult (result_imageBitmap: "nat option") (result_fallbackImage: "nat option")
    (result_canvas: "(nat \<times> nat) option")

datatype settlement = Resolve decoded_image_result | Reject string

text \<open>
  \<open>worker\<close> (is \<open>this.worker\<close> non-null), \<open>workerInitialized\<close>, \<open>pendingRequests\<close> and
  \<open>requestIdCounter\<close> are the fields of the class. Every call of \<open>decodeImage\<close> returns
  one promise; the model numbers the calls (\<open>calls\<close>) and knows a promise by the number
  of its call. \<open>pendingRequests\<close> maps a request id to the promise whose \<open>resolve\<close> and
  \<open>reject\<close> it stores. The remaining fields record the environment:
  \<^item> \<open>clock\<close>: the time in ms;
  \<^item> \<open>issued\<close>: every request id allocated, with its promise, in order;
  \<^item> \<open>posted\<close>: the messages given to \<open>worker.postMessage\<close> (id and URL);
  \<^item> \<open>timeouts\<close>: the callbacks given to \<open>setTimeout\<close> (due time, id, promise);
  \<^item> \<open>settle_calls\<close>: every call of a promise's \<open>resolve\<close> or \<open>reject\<close>, in order;
  \<^item> \<open>thrown\<close>: the promises rejected by an exception instead;
  \<^item> \<open>converting\<close>: calls waiting for \<open>convertImageToBase64\<close> (promise, URL, and whether
    the call is on the worker path);
  \<^item> \<open>loadingImages\<close>: the \<open>Image\<close> elements of the main-thread path that have neither
    loaded nor failed (promise, \<open>src\<close>).
\<close>

record decoder_service =
  worker :: bool
  workerInitialized :: bool
  pendingRequests :: "(nat, nat) jsmap"
  requestIdCounter :: nat
  clock :: nat
  calls :: nat
  issued :: "(nat \<times> nat) list"
  posted :: "(nat \<times> string) list"
  timeouts :: "(nat \<times> nat \<times> nat) list"
  settle_calls :: "(nat \<times> settlement) list"
  thrown :: "(nat \<times> string) list"
  converting :: "(nat \<times> string \<times> bool) list"
  loadingImages :: "(nat \<times> string) list"

text \<open>The constructor; \<open>ok\<close> tells whether \<open>new Worker\<close> succeeded.\<close>

definition initializeWorker :: "bool \<Rightarrow> decoder_service \<Rightarrow> decoder_service" where
  "initializeWorker ok s = s\<lparr>worker := ok, workerInitialized := ok\<rparr>"

definition new_ImageDecoderService :: "bool \<Rightarrow> decoder_service" where
  "new_ImageDecoderService ok =
     initializeWorker ok
       \<lparr>worker = False, workerInitialized = False, pendingRequests = [], requestIdCounter = 0,
        clock = 0, calls = 0, issued = [], posted = [], timeouts = [], settle_calls = [],
        thrown = [], converting = [], loadingImages = []\<rparr>"

definition DECODE_TIMEOUT :: nat where
  "DECODE_TIMEOUT = 30000"

definition settle :: "nat \<Rightarrow> settlement \<Rightarrow> decoder_service \<Rightarrow> decoder_service" where
  "settle h x s = s\<lparr>settle_calls := settle_calls s @ [(h, x)]\<rparr>"

definition handleWorkerMessage :: "worker_response \<Rightarrow> bool \<Rightarrow> decoder_service \<Rightarrow> decoder_service" where
  "handleWorkerMessage r ctx s =
     (case map_get (pendingRequests s) (resp_id r) of
        None \<Rightarrow> s
      | Some h \<Rightarrow>
          (let s1 = s\<lparr>pendingRequests := map_delete (pendingRequests s) (resp_id r)\<rparr> in
           if success r then
             (let result =
                (case resp_imageBitmap r of
                   Some b \<Rightarrow> DecodedImageResult (Some b) None None
                 | None \<Rightarrow>
                     (case fallbackImageData r of
                        Some wh \<Rightarrow>
                          if ctx then DecodedImageResult None None (Some wh)
                          else DecodedImageResult None None None
                      | None \<Rightarrow> DecodedImageResult None None None))
              in settle h (Resolve result) s1)
           else
             settle h
               (Reject (case resp_error r of
                          None \<Rightarrow> ''Unknown decoding error''
                        | Some e \<Rightarrow> if e = [] then ''Unknown decoding error'' else e))
               s1))"

text \<open>Reject every pending request, in the order of the Map, then clear the Map.\<close>

definition reject_all :: "string \<Rightarrow> decoder_service \<Rightarrow> decoder_service" where
  "reject_all msg s =
     s\<lparr>settle_calls := settle_calls s @ map (\<lambda>e. (snd e, Reject msg)) (pendingRequests s),
       pendingRequests := []\<rparr>"

definition handleWorkerError :: "string \<Rightarrow> bool \<Rightarrow> decoder_service \<Rightarrow> decoder_service" where
  "handleWorkerError msg reinit s = initializeWorker reinit (reject_all (''Worker error: '' @ msg) s)"

definition terminate :: "decoder_service \<Rightarrow> decoder_service" where
  "terminate s =
     reject_all ''Service terminated''
       (if worker s then s\<lparr>worker := False, workerInitialized := False\<rparr> else s)"

text \<open>
  Lines 157 to 177 of \<open>decodeImage\<close>: allocate the id, store the promise's functions,
  post the request, arm the timeout. \<open>this.worker!.postMessage\<close> throws when the worker
  has gone in the meantime; the exception leaves the executor before \<open>setTimeout\<close>.
\<close>

definition dispatchToWorker :: "nat \<Rightarrow> string \<Rightarrow> decoder_service \<Rightarrow> decoder_service" where
  "dispatchToWorker h processedImageUrl s =
     (let id = js_incr (requestIdCounter s);
          s1 = s\<lparr>requestIdCounter := id, issued := issued s @ [(id, h)],
                 pendingRequests := map_set (pendingRequests s) id h\<rparr>
      in if worker s1
         then s1\<lparr>posted := posted s1 @ [(id, processedImageUrl)],
                 timeouts := timeouts s1 @ [(clock s1 + DECODE_TIMEOUT, id, h)]\<rparr>
         else s1\<lparr>thrown := thrown s1 @ [(h, ''TypeError'')]\<rparr>)"

definition decodeImageMainThread :: "nat \<Rightarrow> string \<Rightarrow> bool \<Rightarrow> decoder_service \<Rightarrow> decoder_service" where
  "decodeImageMainThread h imageUrl electron s =
     (if startsWith imageUrl ''local-file://'' \<and> electron
      then s\<lparr>converting := converting s @ [(h, imageUrl, False)]\<rparr>
      else s\<lparr>loadingImages := loadingImages s @ [(h, imageUrl)]\<rparr>)"

text \<open>\<open>decodeImage\<close> up to its first \<open>await\<close>; \<open>electron\<close> is whether \<open>window.electron\<close> exists.\<close>

definition decodeImage :: "string \<Rightarrow> bool \<Rightarrow> decoder_service \<Rightarrow> decoder_service" where
  "decodeImage imageUrl electron s =
     (let h = calls s; s0 = s\<lparr>calls := h + 1\<rparr> in
      if \<not> worker s0 \<or> \<not> workerInitialized s0 then decodeImageMainThread h imageUrl electron s0
      else if startsWith imageUrl ''local-file://'' \<and> electron
      then s0\<lparr>converting := converting s0 @ [(h, imageUrl, True)]\<rparr>
      else dispatchToWorker h imageUrl s0)"

text \<open>
  \<open>convertImageToBase64\<close> settles for call \<open>h\<close>: with a data URL, or with a rejection. On
  the worker path a rejection falls back to \<open>decodeImageMainThread\<close> on the original URL
  (which converts again); on the main-thread path it is rethrown.
\<close>

definition convertSettled :: "nat \<Rightarrow> string option \<Rightarrow> decoder_service \<Rightarrow> decoder_service" where
  "convertSettled h res s =
     (case filter (\<lambda>c. fst c = h) (converting s) of
        [] \<Rightarrow> s
      | c # _ \<Rightarrow>
          (let s1 = s\<lparr>converting := filter (\<lambda>c. fst c \<noteq> h) (converting s)\<rparr>;
               imageUrl = fst (snd c)
           in if snd (snd c) then
                (case res of
                   Some processedImageUrl \<Rightarrow> dispatchToWorker h processedImageUrl s1
                 | None \<Rightarrow> decodeImageMainThread h imageUrl True s1)
              else
                (case res of
                   Some processedImageUrl \<Rightarrow>
                     s1\<lparr>loadingImages := loadingImages s1 @ [(h, processedImageUrl)]\<rparr>
                 | None \<Rightarrow> s1\<lparr>thrown := thrown s1 @ [(h, ''Cannot load local file'')]\<rparr>)))"

text \<open>
  \<open>img.onload\<close> and \<open>img.onerror\<close> of the main-thread path. The model delivers to an
  element the first of its \<open>load\<close> and \<open>error\<close> events only: a later event of the same
  element, whose handler would call \<open>resolve\<close> or \<open>reject\<close> of a promise that has settled,
  is not represented.
\<close>

definition imageSettled :: "nat \<Rightarrow> bool \<Rightarrow> decoder_service \<Rightarrow> decoder_service" where
  "imageSettled h loaded s =
     (if h \<notin> fst ` set (loadingImages s) then s
      else
        (let s1 = s\<lparr>loadingImages := filter (\<lambda>c. fst c \<noteq> h) (loadingImages s)\<rparr> in
         if loaded then settle h (Resolve (DecodedImageResult None (Some h) None)) s1
         else settle h (Reject ''Failed to load image'') s1))"

text \<open>The callback given to \<open>setTimeout\<close> by \<open>decodeImage\<close>.\<close>

definition timeoutCallback :: "decoder_service \<Rightarrow> nat \<times> nat \<times> nat \<Rightarrow> decoder_service" where
  "timeoutCallback s t =
     (let id = fst (snd t); h = snd (snd t) in
      if map_has (pendingRequests s) id
      then settle h (Reject ''Image decode timeout'')
             (s\<lparr>pendingRequests := map_delete (pendingRequests s) id\<rparr>)
      else s)"

text \<open>Time passes: the clock advances and the callbacks that have come due run, oldest first.\<close>

definition tick :: "nat \<Rightarrow> decoder_service \<Rightarrow> decoder_service" where
  "tick dt s =
     (let now = clock s + dt;
          due = filter (\<lambda>t. fst t \<le> now) (timeouts s);
          s1 = s\<lparr>clock := now, timeouts := filter (\<lambda>t. \<not> fst t \<le> now) (timeouts s)\<rparr>
      in foldl timeoutCallback s1 due)"

datatype service_event =
    DecodeImage string bool
  | ConvertSettled nat "string option"
  | WorkerMessage worker_response bool
  | WorkerError string bool
  | Terminate
  | ImageSettled nat bool
  | Tick nat

fun service_step :: "decoder_service \<Rightarrow> service_event \<Rightarrow> decoder_service" where
  "service_step s (DecodeImage u e) = decodeImage u e s"
| "service_step s (ConvertSettled h res) = convertSettled h res s"
| "service_step s (WorkerMessage r ctx) = handleWorkerMessage r ctx s"
| "service_step s (WorkerError msg reinit) = handleWorkerError msg reinit s"
| "service_step s Terminate = terminate s"
| "service_step s (ImageSettled h loaded) = imageSettled h loaded s"
| "service_step s (Tick dt) = tick dt s"

definition service_run :: "decoder_service \<Rightarrow> service_event list \<Rightarrow> decoder_service" where
  "service_run s evs = foldl service_step s evs"

text \<open>The state of the promise of call \<open>h\<close>, as its caller sees it.\<close>

definition promise_state :: "decoder_service \<Rightarrow> nat \<Rightarrow> promise_state" where
  "promise_state s h =
     (if h \<in> fst ` set (thrown s) then Rejected
      else
        (case filter (\<lambda>c. fst c = h) (settle_calls s) of
           [] \<Rightarrow> Pending
         | c # _ \<Rightarrow> (case snd c of Resolve _ \<Rightarrow> Resolved | Reject _ \<Rightarrow> Rejected)))"

text \<open>
  The promises that are still owned by some part of the service, or have had their
  \<open>resolve\<close> or \<open>reject\<close> called: in the table, waiting for a conversion, loading on the
  main thread, settled.
\<close>

definition live :: "decoder_service \<Rightarrow> nat list" where
  "live s = map snd (pendingRequests s) @ map fst (converting s) @ map fst (loadingImages s)
              @ map fst (settle_calls s)"

text \<open>
  The invariant of the service while the counter is below \<open>2^53\<close>: request ids grow
  strictly, the table and the timeout callbacks only know ids that were issued, and no
  promise is in two places of \<open>live\<close>.
\<close>

definition service_good :: "decoder_service \<Rightarrow> bool" where
  "service_good s \<longleftrightarrow>
     sorted_wrt (<) (map fst (issued s)) \<and>
     list_all (\<lambda>e. fst e \<le> requestIdCounter s) (issued s) \<and>
     set (pendingRequests s) \<subseteq> set (issued s) \<and>
     distinct (map fst (pendingRequests s)) \<and>
     snd ` set (timeouts s) \<subseteq> set (issued s) \<and>
     distinct (map (\<lambda>t. fst (snd t)) (timeouts s)) \<and>
     distinct (live s) \<and>
     list_all (\<lambda>h. h < calls s) (live s)"

text \<open>A promise that an exception has rejected is no longer converting or loading.\<close>

definition thrown_inv :: "decoder_service \<Rightarrow> bool" where
  "thrown_inv s \<longleftrightarrow>
     list_all (\<lambda>e. fst e < calls s) (thrown s) \<and>
     fst ` set (thrown s) \<inter> (fst ` set (converting s) \<union> fst ` set (loadingImages s)) = {}"

text \<open>
  An event is quiet for request \<open>i\<close> when it is neither a worker response for \<open>i\<close>, nor a
  worker error, nor \<open>terminate\<close>: the events after which \<open>i\<close> can only end by its timeout.
\<close>

fun quiet :: "nat \<Rightarrow> service_event \<Rightarrow> bool" where
  "quiet i (WorkerMessage r ctx) = (resp_id r \<noteq> i)"
| "quiet i (WorkerError msg reinit) = False"
| "quiet i Terminate = False"
| "quiet i ev = True"

text \<open>
  The two states of a request \<open>i\<close> of promise \<open>h\<close> whose timeout is due at \<open>due\<close>: in the
  table with its timeout armed and nothing settled; or out of the table, rejected by the
  timeout and by nothing else.
\<close>

definition waiting :: "nat \<Rightarrow> nat \<Rightarrow> nat \<Rightarrow> decoder_service \<Rightarrow> bool" where
  "waiting i h due s \<longleftrightarrow>
     map_get (pendingRequests s) i = Some h \<and> (due, i, h) \<in> set (timeouts s) \<and>
     clock s < due \<and> h \<notin> fst ` set (settle_calls s) \<and> h \<notin> fst ` set (thrown s) \<and>
     worker s \<and> workerInitialized s \<and> i \<le> requestIdCounter s"

definition expired :: "nat \<Rightarrow> nat \<Rightarrow> nat \<Rightarrow> decoder_service \<Rightarrow> bool" where
  "expired i h due s \<longleftrightarrow>
     \<not> map_has (pendingRequests s) i \<and>
     filter (\<lambda>c. fst c = h) (settle_calls s) = [(h, Reject ''Image decode timeout'')] \<and>
     due \<le> clock s \<and> h \<notin> fst ` set (thrown s) \<and>
     worker s \<and> workerInitialized s \<and> i \<le> requestIdCounter s"

definition still :: "nat \<Rightarrow> nat \<Rightarrow> decoder_service \<Rightarrow> bool" where
  "still i h s \<longleftrightarrow>
     map_get (pendingRequests s) i = Some h \<and> h \<notin> fst ` set (settle_calls s)"

definition timed_out :: "nat \<Rightarrow> nat \<Rightarrow> decoder_service \<Rightarrow> bool" where
  "timed_out i h s \<longleftrightarrow>
     \<not> map_has (pendingRequests s) i \<and>
     (h, Reject ''Image decode timeout'') \<in> set (settle_calls s)"

text \<open>Concrete responses and runs, used below.\<close>

definition late_response :: worker_response where
  "late_response =
     \<lparr>resp_id = 1, success = True, resp_imageBitmap = Some 7, resp_error = None,
      fallbackImageData = None\<rparr>"

definition timed_out_run :: "service_event list" where
  "timed_out_run = [DecodeImage ''https://example.com/a.png'' False, Tick 30000]"

definition other_response :: worker_response where
  "other_response =
     \<lparr>resp_id = 2, success = True, resp_imageBitmap = Some 9, resp_error = None,
      fallbackImageData = None\<rparr>"

definition busy_run :: "service_event list" where
  "busy_run =
     [Tick 10000, DecodeImage ''https://example.com/b.png'' False,
      WorkerMessage other_response True, Tick 20000]"

text \<open>
  Invariants of the module state. \<open>queue_inv\<close> holds in every reachable state;
  \<open>decoding_inv\<close> (the decodes in flight are exactly the keys of \<open>loading\<close>, each once)
  holds as long as \<open>clearCache\<close> has not emptied \<open>loading\<close> under decodes that still run.
\<close>

definition queue_inv :: "preloader \<Rightarrow> bool" where
  "queue_inv s \<longleftrightarrow>
     length (loading s) \<le> maxConcurrent \<and> distinct (loading s) \<and>
     distinct (map url (queue s)) \<and> set (loading s) \<inter> url ` set (queue s) = {}"

definition decoding_inv :: "preloader \<Rightarrow> bool" where
  "decoding_inv s \<longleftrightarrow> distinct (decoding s) \<and> set (decoding s) = set (loading s)"

text \<open>The pending items of a key.\<close>

definition pending :: "preloader \<Rightarrow> string \<Rightarrow> queue_item list" where
  "pending s u = filter (\<lambda>i. url i = u) (queue s)"

text \<open>A run from any state.\<close>

definition steps :: "preloader \<Rightarrow> event list \<Rightarrow> preloader" where
  "steps s evs = foldl step s evs"




text \<open>
  Two more invariants, kept by every step except a \<open>clearCache\<close> under running decodes:
  a pending key is not cached, and a queue that is not empty has a \<open>processQueue\<close> to
  come, from a timer or from the \<open>finally\<close> of a decode in flight.
\<close>

definition pending_uncached :: "preloader \<Rightarrow> bool" where
  "pending_uncached s \<longleftrightarrow> (\<forall>i\<in>set (queue s). \<not> lru_has (imageCache s) (url i))"

definition served :: "preloader \<Rightarrow> bool" where
  "served s \<longleftrightarrow> queue s = [] \<or> timers s \<noteq> [] \<or> decoding s \<noteq> []"


text \<open>
  \<open>in_progress c s u\<close>: the key \<open>u\<close> has been enqueued at a moment when \<open>c\<close> decodes of it
  had been dispatched, and since then either its item is still pending and no decode of
  it was dispatched, or the item has left the queue and exactly one decode of it was
  dispatched, which \<open>loading\<close> still holds.
\<close>

definition in_progress :: "nat \<Rightarrow> preloader \<Rightarrow> string \<Rightarrow> bool" where
  "in_progress c s u \<longleftrightarrow>
     ((\<exists>it. pending s u = [it]) \<and> u \<notin> set (loading s) \<and> count_list (dispatched s) u = c) \<or>
     (pending s u = [] \<and> u \<in> set (loading s) \<and> count_list (dispatched s) u = Suc c)"


definition tie_events :: "event list" where
  "tie_events =
     [Scroll 120,
      Add 1000 ''first.png'' 10 0,
      Add 1010 ''above.png'' 50 (calculateViewportDistance 600 \<lparr>rect_top = - 300, rect_height = 100\<rparr>),
      Add 1020 ''below.png'' 50 (calculateViewportDistance 600 \<lparr>rect_top = 800, rect_height = 100\<rparr>)]"






section \<open>Facts about the Map model\<close>

lemma map_has_iff: "map_has m k \<longleftrightarrow> k \<in> set (map fst m)"
  by (simp add: map_has_def map_of_eq_None_iff)

lemma keys_map_delete: "map fst (map_delete m k) = filter (\<lambda>x. x \<noteq> k) (map fst m)"
  by (simp add: map_delete_def filter_map comp_def)

lemma distinct_map_delete:
  "distinct (map fst m) \<Longrightarrow> distinct (map fst (map_delete m k))"
  by (simp add: keys_map_delete)

lemma map_has_map_delete: "map_has (map_delete m k) k' \<longleftrightarrow> map_has m k' \<and> k' \<noteq> k"
  by (auto simp: map_has_iff keys_map_delete)

lemma length_map_delete_le: "length (map_delete m k) \<le> length m"
  by (simp add: map_delete_def)

lemma length_map_delete_has:
  "distinct (map fst m) \<Longrightarrow> map_has m k \<Longrightarrow> Suc (length (map_delete m k)) = length m"
proof (induction m)
  case Nil
  then show ?case by (simp add: map_has_iff)
next
  case (Cons e m)
  show ?case
  proof (cases "fst e = k")
    case True
    with Cons.prems have "k \<notin> set (map fst m)" by auto
    then have "filter (\<lambda>e. fst e \<noteq> k) m = m"
      by (induction m) auto
    with True show ?thesis by (simp add: map_delete_def)
  next
    case False
    with Cons show ?thesis by (auto simp: map_delete_def map_has_iff)
  qed
qed

lemma map_delete_absent: "\<not> map_has m k \<Longrightarrow> map_delete m k = m"
  unfolding map_has_iff map_delete_def by (induction m) auto

lemma keys_map_set_new: "\<not> map_has m k \<Longrightarrow> map fst (map_set m k v) = map fst m @ [k]"
  by (simp add: map_set_def)

lemma keys_map_set_old: "map_has m k \<Longrightarrow> map fst (map_set m k v) = map fst m"
  by (auto simp: map_set_def)

lemma distinct_map_set:
  "distinct (map fst m) \<Longrightarrow> distinct (map fst (map_set m k v))"
  by (cases "map_has m k") (auto simp: keys_map_set_new keys_map_set_old map_has_iff)

lemma length_map_set: "length (map_set m k v) = (if map_has m k then length m else Suc (length m))"
  by (simp add: map_set_def)

lemma map_delete_first:
  "distinct (map fst (e # m)) \<Longrightarrow> map_delete (e # m) (fst e) = m"
proof -
  assume "distinct (map fst (e # m))"
  then have "\<not> map_has m (fst e)" by (simp add: map_has_iff)
  then have "map_delete m (fst e) = m" by (rule map_delete_absent)
  then show ?thesis by (simp add: map_delete_def)
qed

lemma map_has_map_set: "map_has (map_set m k v) k' \<longleftrightarrow> map_has m k' \<or> k' = k"
  by (cases "map_has m k") (auto simp: map_has_iff keys_map_set_new keys_map_set_old)

section \<open>Facts about LRUCache\<close>

lemma cache_cleanup [simp]: "cache (cleanup v c) = cache c"
  by (simp add: cleanup_def split: option.splits cache_value.splits)

lemma maxSize_cleanup [simp]: "maxSize (cleanup v c) = maxSize c"
  by (simp add: cleanup_def split: option.splits cache_value.splits)

lemma cache_cleanup_all [simp]: "cache (cleanup_all es c) = cache c"
  by (induction es arbitrary: c) auto

lemma maxSize_cleanup_all [simp]: "maxSize (cleanup_all es c) = maxSize c"
  by (induction es arbitrary: c) auto

lemma maxSize_lru_set [simp]: "maxSize (lru_set c k v) = maxSize c"
  by (simp add: lru_set_def Let_def split: option.splits)

lemma maxSize_lru_apply [simp]: "maxSize (lru_apply c x) = maxSize c"
  by (cases x) (simp_all add: lru_get_def lru_delete_def lru_clear_def Let_def split: option.splits)

lemma lru_inv_get: "lru_inv c \<Longrightarrow> lru_inv (snd (lru_get c k))"
proof (cases "map_get (cache c) k")
  case None
  assume "lru_inv c"
  with None show ?thesis by (simp add: lru_get_def)
next
  case (Some v)
  assume inv: "lru_inv c"
  from Some have has: "map_has (cache c) k" by (simp add: map_has_def map_get_def)
  have nh: "\<not> map_has (map_delete (cache c) k) k" by (simp add: map_has_map_delete)
  from inv has have "Suc (length (map_delete (cache c) k)) = length (cache c)"
    by (simp add: lru_inv_def length_map_delete_has)
  with inv nh Some show ?thesis
    by (simp add: lru_get_def lru_inv_def length_map_set distinct_map_set distinct_map_delete)
qed

lemma lru_inv_set:
  assumes inv: "lru_inv c" and pos: "0 < maxSize c"
  shows "lru_inv (lru_set c k v)"
proof (cases "map_has (cache c) k")
  case True
  have nh: "\<not> map_has (map_delete (cache c) k) k" by (simp add: map_has_map_delete)
  from inv True have "Suc (length (map_delete (cache c) k)) = length (cache c)"
    by (simp add: lru_inv_def length_map_delete_has)
  with inv nh True show ?thesis
    by (simp add: lru_set_def lru_inv_def length_map_set distinct_map_set distinct_map_delete)
next
  case False
  show ?thesis
  proof (cases "length (cache c) \<ge> maxSize c")
    case full: True
    with pos obtain e m where cm: "cache c = e # m" by (cases "cache c") auto
    from inv cm have del: "map_delete (cache c) (fst e) = m"
      using map_delete_first [of e m] by (simp add: lru_inv_def)
    from False cm have nhm: "\<not> map_has m k" by (auto simp: map_has_iff)
    from inv cm have "distinct (map fst m)" and "Suc (length m) \<le> maxSize c"
      by (simp_all add: lru_inv_def)
    with False full cm del nhm show ?thesis
      by (simp add: lru_set_def lru_inv_def map_first_key_def Let_def length_map_set
          distinct_map_set)
  next
    case notfull: False
    with inv False show ?thesis
      by (simp add: lru_set_def lru_inv_def length_map_set distinct_map_set)
  qed
qed

lemma lru_inv_delete: "lru_inv c \<Longrightarrow> lru_inv (snd (lru_delete c k))"
  using length_map_delete_le [of "cache c" k]
  by (simp add: lru_delete_def lru_inv_def Let_def distinct_map_delete)

lemma lru_inv_clear: "lru_inv c \<Longrightarrow> lru_inv (lru_clear c)"
  by (simp add: lru_clear_def lru_inv_def)

lemma lru_inv_apply: "lru_inv c \<Longrightarrow> 0 < maxSize c \<Longrightarrow> lru_inv (lru_apply c x)"
  by (cases x) (simp_all add: lru_inv_get lru_inv_set lru_inv_delete lru_inv_clear)

lemma lru_inv_calls: "lru_inv c \<Longrightarrow> 0 < maxSize c \<Longrightarrow> lru_inv (lru_calls c cs)"
  unfolding lru_calls_def
proof (induction cs arbitrary: c)
  case Nil
  then show ?case by simp
next
  case (Cons x cs)
  then show ?case by (simp add: lru_inv_apply)
qed

lemma maxSize_lru_calls [simp]: "maxSize (lru_calls c cs) = maxSize c"
  unfolding lru_calls_def by (induction cs arbitrary: c) auto

lemma lru_inv_imageCache0: "lru_inv imageCache0 \<and> maxSize imageCache0 = 200"
  by (simp add: imageCache0_def new_LRUCache_def lru_inv_def IMAGE_CACHE_MAX_SIZE_def)

lemma lru_set_present_size:
  assumes "lru_inv c" and "lru_has c k"
  shows "lru_size (lru_set c k v) = lru_size c"
proof -
  have nh: "\<not> map_has (map_delete (cache c) k) k" by (simp add: map_has_map_delete)
  from assms have "Suc (length (map_delete (cache c) k)) = length (cache c)"
    by (simp add: lru_inv_def lru_has_def length_map_delete_has)
  with assms nh show ?thesis
    by (simp add: lru_set_def lru_size_def lru_has_def length_map_set)
qed

lemma lru_set_evicts_first:
  assumes inv: "lru_inv c" and new: "\<not> lru_has c k"
    and full: "maxSize c \<le> lru_size c" and cm: "cache c = e # m"
  shows "cache (lru_set c k v) = m @ [(k, v)]"
    and "released (lru_set c k v) = released (cleanup (Some (snd e)) c)"
proof -
  from inv cm have del: "map_delete (cache c) (fst e) = m"
    using map_delete_first [of e m] by (simp add: lru_inv_def)
  from new cm have nhm: "\<not> map_has m k" by (auto simp: map_has_iff lru_has_def)
  have get: "map_get (cache c) (fst e) = Some (snd e)"
    by (simp add: cm map_get_def)
  from new full cm del nhm get show "cache (lru_set c k v) = m @ [(k, v)]"
    by (simp add: lru_set_def lru_has_def lru_size_def map_first_key_def Let_def map_set_def)
  from new full cm del nhm get
  show "released (lru_set c k v) = released (cleanup (Some (snd e)) c)"
    by (simp add: lru_set_def lru_has_def lru_size_def map_first_key_def Let_def
        cleanup_def split: cache_value.splits)
qed

lemma lru_delete_releases:
  "released (snd (lru_delete c k)) = released (cleanup (map_get (cache c) k) c)"
  by (simp add: lru_delete_def Let_def)

lemma released_cleanup_all:
  "released (cleanup_all es c) =
     released c @ concat (map (\<lambda>e. case snd e of HTMLImageElement i \<Rightarrow> [i] | _ \<Rightarrow> []) es)"
  by (induction es arbitrary: c) (auto simp: cleanup_def split: cache_value.splits)

lemma lru_clear_releases:
  "released (lru_clear c) =
     released c @ concat (map (\<lambda>e. case snd e of HTMLImageElement i \<Rightarrow> [i] | _ \<Rightarrow> []) (cache c))"
  by (simp add: lru_clear_def released_cleanup_all)

section \<open>Claims about LRUCache\<close>

text \<open>
  C1. The image cache is \<open>new LRUCache(200)\<close>. After any sequence of calls of its methods
  (\<open>set\<close>, and also \<open>get\<close>, \<open>delete\<close>, \<open>clear\<close>) it holds at most 200 entries. The same
  is true of a cache of any capacity \<open>n > 0\<close>: after any sequence of calls the count is at
  most \<open>n\<close>; \<open>set\<close> on a key that is present leaves the count as it was; \<open>set\<close> on a new
  key when the count has reached \<open>n\<close> drops the oldest entry (the first of the Map), then
  appends the new one, so the count stays \<open>n\<close>.
\<close>

theorem lru_set_count_bounded:
  "lru_size (lru_calls imageCache0 cs) \<le> 200 \<and>
   (0 < n \<longrightarrow>
      lru_size (lru_calls (new_LRUCache n) cs) \<le> n \<and>
      (lru_has (lru_calls (new_LRUCache n) cs) k1 \<longrightarrow>
         lru_size (lru_set (lru_calls (new_LRUCache n) cs) k1 v)
           = lru_size (lru_calls (new_LRUCache n) cs)) \<and>
      (\<not> lru_has (lru_calls (new_LRUCache n) cs) k2 \<and>
         lru_size (lru_calls (new_LRUCache n) cs) = n \<longrightarrow>
         cache (lru_set (lru_calls (new_LRUCache n) cs) k2 v)
           = tl (cache (lru_calls (new_LRUCache n) cs)) @ [(k2, v)] \<and>
         lru_size (lru_set (lru_calls (new_LRUCache n) cs) k2 v) = n))"
proof -
  have img: "lru_inv (lru_calls imageCache0 cs)"
    using lru_inv_imageCache0 by (simp add: lru_inv_calls)
  have first: "lru_size (lru_calls imageCache0 cs) \<le> 200"
    using img lru_inv_imageCache0 by (simp add: lru_inv_def lru_size_def)
  have rest: "lru_size c \<le> n \<and>
      (lru_has c k1 \<longrightarrow> lru_size (lru_set c k1 v) = lru_size c) \<and>
      (\<not> lru_has c k2 \<and> lru_size c = n \<longrightarrow>
         cache (lru_set c k2 v) = tl (cache c) @ [(k2, v)] \<and> lru_size (lru_set c k2 v) = n)"
    if pos: "0 < n" and c: "c = lru_calls (new_LRUCache n) cs" for c
  proof -
    have "lru_inv (new_LRUCache n)" and m0: "maxSize (new_LRUCache n) = n"
      by (simp_all add: new_LRUCache_def lru_inv_def)
    with pos c have inv: "lru_inv c" and m: "maxSize c = n"
      by (simp_all add: lru_inv_calls)
    from inv m have bound: "lru_size c \<le> n"
      by (simp add: lru_inv_def lru_size_def)
    have present: "lru_size (lru_set c k1 v) = lru_size c" if "lru_has c k1"
      using inv that by (rule lru_set_present_size)
    have evict: "cache (lru_set c k2 v) = tl (cache c) @ [(k2, v)] \<and> lru_size (lru_set c k2 v) = n"
      if new: "\<not> lru_has c k2" and full: "lru_size c = n"
    proof -
      from full pos obtain e es where cm: "cache c = e # es"
        by (cases "cache c") (auto simp: lru_size_def)
      from full m have "maxSize c \<le> lru_size c" by simp
      then have "cache (lru_set c k2 v) = es @ [(k2, v)]"
        using lru_set_evicts_first(1) [OF inv new _ cm] by simp
      with cm full show ?thesis by (simp add: lru_size_def)
    qed
    from bound present evict show ?thesis by blast
  qed
  from first rest show ?thesis by blast
qed

theorem lru_set_count_bounded_witness:
  "(0::nat) < 2 \<and>
   lru_has (lru_calls (new_LRUCache 2) [Set ''a'' (HTMLImageElement 1), Set ''b'' (HTMLImageElement 2)]) ''b'' \<and>
   \<not> lru_has (lru_calls (new_LRUCache 2) [Set ''a'' (HTMLImageElement 1), Set ''b'' (HTMLImageElement 2)]) ''c'' \<and>
   lru_size (lru_calls (new_LRUCache 2) [Set ''a'' (HTMLImageElement 1), Set ''b'' (HTMLImageElement 2)]) = 2 \<and>
   lru_size (lru_set (lru_calls (new_LRUCache 2) [Set ''a'' (HTMLImageElement 1), Set ''b'' (HTMLImageElement 2)])
      ''b'' (HTMLImageElement 3)) = 2 \<and>
   cache (lru_set (lru_calls (new_LRUCache 2) [Set ''a'' (HTMLImageElement 1), Set ''b'' (HTMLImageElement 2)])
      ''c'' (HTMLImageElement 3)) = [(''b'', HTMLImageElement 2), (''c'', HTMLImageElement 3)]"
proof -
  let ?c = "lru_calls (new_LRUCache 2) [Set ''a'' (HTMLImageElement 1), Set ''b'' (HTMLImageElement 2)]"
  have c: "?c = \<lparr>cache = [(''a'', HTMLImageElement 1), (''b'', HTMLImageElement 2)],
                  maxSize = 2, released = []\<rparr>"
    by (simp add: lru_calls_def lru_set_def new_LRUCache_def map_has_def map_set_def)
  have h0: "(0::nat) < 2" by simp
  have h1: "lru_has ?c ''b''" unfolding c by (simp add: lru_has_def map_has_def)
  have h2: "\<not> lru_has ?c ''c''" unfolding c by (simp add: lru_has_def map_has_def)
  have h3: "lru_size ?c = 2" unfolding c by (simp add: lru_size_def)
  have tl: "tl (cache ?c) = [(''b'', HTMLImageElement 2)]" unfolding c by simp
  from lru_set_count_bounded [of "[Set ''a'' (HTMLImageElement 1), Set ''b'' (HTMLImageElement 2)]"
      2 "''b''" "HTMLImageElement 3" "''c''"] h0 h1 h2 h3 tl
  show ?thesis by simp
qed

lemmas lru_defs = lru_set_def lru_get_def new_LRUCache_def map_has_def map_get_def map_set_def
      map_delete_def map_first_key_def Let_def

text \<open>
  C6. A cache of capacity 3 receives \<open>set A\<close>, \<open>set B\<close>, \<open>set C\<close>, then A is refreshed
  (by \<open>get A\<close>, which returns A's value, or by \<open>set A\<close>), then \<open>set D\<close>. The entry evicted
  is B, and it is the one whose image is released: the cache then holds C, A, D, oldest
  first.
\<close>

theorem lru_refresh_then_evict:
  "distinct [a, b, c, d] \<Longrightarrow>
     fst (lru_get (lru_set (lru_set (lru_set (new_LRUCache 3) a va) b vb) c vc) a) = Some va \<and>
     cache (lru_set (snd (lru_get
        (lru_set (lru_set (lru_set (new_LRUCache 3) a va) b vb) c vc) a)) d vd)
       = [(c, vc), (a, va), (d, vd)] \<and>
     released (lru_set (snd (lru_get
        (lru_set (lru_set (lru_set (new_LRUCache 3) a va) b vb) c vc) a)) d vd)
       = released (cleanup (Some vb) (new_LRUCache 3)) \<and>
     cache (lru_set (lru_set
        (lru_set (lru_set (lru_set (new_LRUCache 3) a va) b vb) c vc) a va') d vd)
       = [(c, vc), (a, va'), (d, vd)] \<and>
     released (lru_set (lru_set
        (lru_set (lru_set (lru_set (new_LRUCache 3) a va) b vb) c vc) a va') d vd)
       = released (cleanup (Some vb) (new_LRUCache 3))"
proof -
  assume "distinct [a, b, c, d]"
  then have dist: "a \<noteq> b" "a \<noteq> c" "a \<noteq> d" "b \<noteq> c" "b \<noteq> d" "c \<noteq> d"
    "b \<noteq> a" "c \<noteq> a" "d \<noteq> a" "c \<noteq> b" "d \<noteq> b" "d \<noteq> c"
    by auto
  let ?c3 = "lru_set (lru_set (lru_set (new_LRUCache 3) a va) b vb) c vc"
  have c3: "?c3 = \<lparr>cache = [(a, va), (b, vb), (c, vc)], maxSize = 3, released = []\<rparr>"
    using dist by (simp add: lru_defs)
  have g: "lru_get ?c3 a
      = (Some va, \<lparr>cache = [(b, vb), (c, vc), (a, va)], maxSize = 3, released = []\<rparr>)"
    unfolding c3 using dist by (simp add: lru_defs)
  have s: "lru_set ?c3 a va'
      = \<lparr>cache = [(b, vb), (c, vc), (a, va')], maxSize = 3, released = []\<rparr>"
    unfolding c3 using dist by (simp add: lru_defs)
  have ev: "lru_set \<lparr>cache = [(b, vb), (c, vc), (a, x)], maxSize = 3, released = []\<rparr> d vd
      = (cleanup (Some vb) (new_LRUCache 3))\<lparr>cache := [(c, vc), (a, x), (d, vd)]\<rparr>" for x
    using dist by (simp add: lru_defs cleanup_def split: cache_value.splits)
  show ?thesis unfolding g s by (simp add: ev)
qed

theorem lru_refresh_then_evict_witness:
  "distinct [''A'', ''B'', ''C'', ''D''] \<and>
   lru_keys (lru_set (snd (lru_get
      (lru_set (lru_set (lru_set (new_LRUCache 3) ''A'' (HTMLImageElement 11))
         ''B'' (HTMLImageElement 12)) ''C'' (HTMLImageElement 13)) ''A''))
      ''D'' (HTMLImageElement 14)) = [''C'', ''A'', ''D''] \<and>
   released (lru_set (snd (lru_get
      (lru_set (lru_set (lru_set (new_LRUCache 3) ''A'' (HTMLImageElement 11))
         ''B'' (HTMLImageElement 12)) ''C'' (HTMLImageElement 13)) ''A''))
      ''D'' (HTMLImageElement 14)) = [12]"
proof -
  have h: "distinct [''A'', ''B'', ''C'', ''D'']" by simp
  have r: "released (cleanup (Some (HTMLImageElement 12)) (new_LRUCache 3)) = [12]"
    by (simp add: cleanup_def new_LRUCache_def)
  from lru_refresh_then_evict [OF h, of "HTMLImageElement 11" "HTMLImageElement 12"
      "HTMLImageElement 13" "HTMLImageElement 14"] h r
  show ?thesis unfolding lru_keys_def map_keys_def by simp
qed

text \<open>
  C8. \<open>set\<close> on a key that is already present removes the old entry with a bare
  \<open>this.cache.delete(key)\<close>: the image element it held is dropped and never released,
  whereas eviction at capacity, \<open>delete\<close> and \<open>clear\<close> reset \<open>src\<close> and \<open>srcset\<close> of the
  element they drop. Here image 1 is replaced by image 2 under the same key, and nothing
  has been released.
\<close>

theorem lru_set_replace_releases_nothing:
  "cache (lru_set (lru_set imageCache0 ''a.png'' (HTMLImageElement 1)) ''a.png'' (HTMLImageElement 2))
     = [(''a.png'', HTMLImageElement 2)] \<and>
   released (lru_set (lru_set imageCache0 ''a.png'' (HTMLImageElement 1)) ''a.png'' (HTMLImageElement 2))
     = []"
proof -
  have one: "lru_set imageCache0 ''a.png'' (HTMLImageElement 1)
      = \<lparr>cache = [(''a.png'', HTMLImageElement 1)], maxSize = 200, released = []\<rparr>"
    by (simp add: lru_set_def imageCache0_def new_LRUCache_def IMAGE_CACHE_MAX_SIZE_def
      map_has_def map_set_def)
  show ?thesis unfolding one
    by (simp add: lru_set_def map_has_def map_set_def map_delete_def)
qed

section \<open>Facts about the preload queue\<close>






lemma queue_inv_timers [simp]: "queue_inv (s\<lparr>timers := t\<rparr>) = queue_inv s"
  by (simp add: queue_inv_def)

lemma decoding_inv_timers [simp]: "decoding_inv (s\<lparr>timers := t\<rparr>) = decoding_inv s"
  by (simp add: decoding_inv_def)









lemma length_set_delete: "length (set_delete xs x) \<le> length xs"
  by (simp add: set_delete_def)



lemma queue_inv_loadedImages [simp]: "queue_inv (s\<lparr>loadedImages := t\<rparr>) = queue_inv s"
  by (simp add: queue_inv_def)

lemma decoding_inv_loadedImages [simp]: "decoding_inv (s\<lparr>loadedImages := t\<rparr>) = decoding_inv s"
  by (simp add: decoding_inv_def)







lemma processQueue_imageCache [simp]: "imageCache (processQueue now s) = imageCache s"
  by (simp add: processQueue_def Let_def split: list.splits)

lemma add_imageCache [simp]: "imageCache (add now u p d s) = imageCache s"
  by (simp add: add_def Let_def sortQueue_def)





lemma compare_items_ignores_direction: "compare_items dir a b = compare_items Idle a b"
  by (simp add: compare_items_def Let_def)

lemma sortQueue_ignores_direction:
  "queue (sortQueue (s\<lparr>scrollDirection := dir\<rparr>)) = queue (sortQueue (s\<lparr>scrollDirection := Idle\<rparr>))"
proof -
  have "compare_items dir = compare_items Idle"
    by (intro ext) (rule compare_items_ignores_direction)
  then show ?thesis by (simp add: sortQueue_def)
qed



lemma pending_uncached_timers [simp]: "pending_uncached (s\<lparr>timers := t\<rparr>) = pending_uncached s"
  by (simp add: pending_uncached_def)

lemma pending_uncached_loadedImages [simp]:
  "pending_uncached (s\<lparr>loadedImages := t\<rparr>) = pending_uncached s"
  by (simp add: pending_uncached_def)

lemma served_loadedImages [simp]: "served (s\<lparr>loadedImages := t\<rparr>) = served s"
  by (simp add: served_def)















lemma steps_Nil [simp]: "steps s [] = s"
  by (simp add: steps_def)

lemma steps_Cons [simp]: "steps s (e # evs) = steps (step s e) evs"
  by (simp add: steps_def)












lemma in_progress_timers [simp]: "in_progress c (s\<lparr>timers := t\<rparr>) u = in_progress c s u"
  by (simp add: in_progress_def pending_def)

lemma in_progress_loadedImages [simp]:
  "in_progress c (s\<lparr>loadedImages := t\<rparr>) u = in_progress c s u"
  by (simp add: in_progress_def pending_def)










section \<open>Claims about the preload queue\<close>










text \<open>
  C7. The comparator reaches its scroll-direction branch only when the two distances are
  equal, and there it returns their difference: zero. So the direction never changes the
  order. Here the page has scrolled down, one decode is under way, and two items of equal
  priority (50) and equal distance (550 from the centre of a 600 px viewport), one above
  and one below, are enqueued in that order: the queue keeps the one above first, and the
  next \<open>processQueue\<close> dispatches it, not the one below.
\<close>

theorem scroll_down_tie_not_broken:
  "scrollDirection (run tie_events) = Down \<and>
   queue (run tie_events)
     = [\<lparr>url = ''above.png'', priority = 50, distance = 550\<rparr>,
        \<lparr>url = ''below.png'', priority = 50, distance = 550\<rparr>] \<and>
   dispatched (run (tie_events @ [TimerFired 1110])) = [''first.png'', ''above.png''] \<and>
   map url (queue (run (tie_events @ [TimerFired 1110]))) = [''below.png'']"
  by code_simp

text \<open>
  C9. For the empty string and for every URL that starts with \<open>data:\<close>, the hook's
  \<open>preloadImage\<close> returns a resolved promise and leaves the whole module state (the
  queue and the image cache with it) as it was.
\<close>

theorem preloadImage_skips_data_urls:
  "u = [] \<or> startsWith u ''data:'' \<Longrightarrow> preloadImage now u p s = (Resolved, s)"
  by (simp add: preloadImage_def)

theorem preloadImage_skips_data_urls_witness:
  "startsWith ''data:image/png;base64,iVBORw0KGgo='' ''data:'' \<and>
   preloadImage 1000 ''data:image/png;base64,iVBORw0KGgo='' 5 preloader0 = (Resolved, preloader0) \<and>
   preloadImage 1000 [] 5 preloader0 = (Resolved, preloader0)"
proof -
  have h: "startsWith ''data:image/png;base64,iVBORw0KGgo='' ''data:''"
    by (simp add: startsWith_def)
  from preloadImage_skips_data_urls [of "''data:image/png;base64,iVBORw0KGgo=''" 1000 5 preloader0]
    preloadImage_skips_data_urls [of "[]" 1000 5 preloader0] h
  show ?thesis by simp
qed

section \<open>Facts about ImageDecoderService\<close>

lemma issued_fst_unique:
  fixes xs :: "(nat \<times> 'b) list"
  assumes "sorted_wrt (<) (map fst xs)" and "(i, h) \<in> set xs" and "(i, h') \<in> set xs"
  shows "h = h'"
proof -
  from assms(1) have "distinct (map fst xs)"
    by (simp add: strict_sorted_iff)
  then show ?thesis using assms(2,3) by (rule eq_key_imp_eq_value)
qed

lemma issued_fst_distinct:
  fixes xs :: "(nat \<times> 'b) list"
  shows "sorted_wrt (<) (map fst xs) \<Longrightarrow> distinct (map fst xs)"
  by (simp add: strict_sorted_iff)

lemma js_incr_lt: "js_incr n < 2 ^ 53 \<Longrightarrow> n < 2 ^ 53 \<and> js_incr n = Suc n"
  by (simp add: js_incr_def split: if_splits)

lemma live_simps [simp]:
  "live (s\<lparr>clock := c\<rparr>) = live s"
  "live (s\<lparr>timeouts := t\<rparr>) = live s"
  "live (s\<lparr>posted := p\<rparr>) = live s"
  "live (s\<lparr>thrown := th\<rparr>) = live s"
  "live (s\<lparr>issued := i\<rparr>) = live s"
  "live (s\<lparr>requestIdCounter := n\<rparr>) = live s"
  "live (s\<lparr>calls := k\<rparr>) = live s"
  "live (s\<lparr>worker := w\<rparr>) = live s"
  "live (s\<lparr>workerInitialized := w\<rparr>) = live s"
  by (simp_all add: live_def)

lemma snd_unique:
  "distinct (map snd xs) \<Longrightarrow> (i, h) \<in> set xs \<Longrightarrow> (j, h) \<in> set xs \<Longrightarrow> i = j"
  by (induction xs) force+

lemma distinct_move_to_end:
  "distinct (ps @ cs @ ls @ ss) \<Longrightarrow> distinct ps' \<Longrightarrow> set ps' \<subseteq> set ps \<Longrightarrow>
   h \<in> set ps \<Longrightarrow> h \<notin> set ps' \<Longrightarrow> distinct (ps' @ cs @ ls @ ss @ [h])"
  by auto

lemma list_all_move_to_end:
  "list_all P (ps @ cs @ ls @ ss) \<Longrightarrow> set ps' \<subseteq> set ps \<Longrightarrow> P h \<Longrightarrow>
   list_all P (ps' @ cs @ ls @ ss @ [h])"
  by (auto simp: list_all_iff)

lemma good_settle_from_pending:
  assumes g: "service_good s" and p: "map_get (pendingRequests s) i = Some h"
  shows "service_good (settle h x (s\<lparr>pendingRequests := map_delete (pendingRequests s) i\<rparr>))"
proof -
  let ?s' = "settle h x (s\<lparr>pendingRequests := map_delete (pendingRequests s) i\<rparr>)"
  let ?ps' = "map snd (map_delete (pendingRequests s) i)"
  have f: "issued ?s' = issued s" "requestIdCounter ?s' = requestIdCounter s"
    "timeouts ?s' = timeouts s" "calls ?s' = calls s"
    "pendingRequests ?s' = map_delete (pendingRequests s) i"
    by (simp_all add: settle_def)
  have l: "live ?s' = ?ps' @ map fst (converting s) @ map fst (loadingImages s)
      @ map fst (settle_calls s) @ [h]"
    by (simp add: settle_def live_def)
  from p have mem: "(i, h) \<in> set (pendingRequests s)"
    by (simp add: map_get_def map_of_SomeD)
  then have hin: "h \<in> set (map snd (pendingRequests s))" by force
  from g have dl: "distinct (live s)" by (simp add: service_good_def)
  then have dv0: "distinct (map snd (pendingRequests s))" by (simp add: live_def)
  have others: "h \<notin> set ?ps'"
  proof
    assume "h \<in> set ?ps'"
    then obtain j where j: "(j, h) \<in> set (pendingRequests s)" and ne: "j \<noteq> i"
      by (auto simp: map_delete_def)
    from dv0 mem j have "i = j" by (rule snd_unique)
    with ne show False by simp
  qed
  have sub: "set ?ps' \<subseteq> set (map snd (pendingRequests s))"
    by (auto simp: map_delete_def)
  from dv0 have dv: "distinct ?ps'"
    by (simp add: map_delete_def distinct_map_filter)
  have 7: "distinct (live ?s')"
    unfolding l using dl dv sub hin others unfolding live_def by (rule distinct_move_to_end)
  from g have all: "list_all (\<lambda>h. h < calls s) (live s)" by (simp add: service_good_def)
  with hin have hc: "h < calls s" by (simp add: live_def list_all_iff)
  have 8: "list_all (\<lambda>h. h < calls ?s') (live ?s')"
    unfolding l f using all sub hc unfolding live_def by (rule list_all_move_to_end)
  have 3: "set (pendingRequests ?s') \<subseteq> set (issued ?s')"
    unfolding f using g by (auto simp: service_good_def map_delete_def)
  have 4: "distinct (map fst (pendingRequests ?s'))"
    unfolding f using g by (simp add: service_good_def distinct_map_delete)
  from g 3 4 7 8 show ?thesis
    unfolding service_good_def f by simp
qed

lemma distinct_rotate4:
  "distinct (ps @ cs @ ls @ ss) \<Longrightarrow> distinct (cs @ ls @ ss @ ps)"
  by auto

lemma list_all_rotate4:
  "list_all P (ps @ cs @ ls @ ss) \<Longrightarrow> list_all P (cs @ ls @ ss @ ps)"
  by auto

lemma good_live: "service_good s \<Longrightarrow> distinct (live s)"
  and good_calls: "service_good s \<Longrightarrow> list_all (\<lambda>h. h < calls s) (live s)"
  by (simp_all add: service_good_def)

lemma good_sorted: "service_good s \<Longrightarrow> sorted_wrt (<) (map fst (issued s))"
  and good_le: "service_good s \<Longrightarrow> list_all (\<lambda>e. fst e \<le> requestIdCounter s) (issued s)"
  and good_pending: "service_good s \<Longrightarrow> set (pendingRequests s) \<subseteq> set (issued s)"
  and good_keys: "service_good s \<Longrightarrow> distinct (map fst (pendingRequests s))"
  and good_timers: "service_good s \<Longrightarrow> snd ` set (timeouts s) \<subseteq> set (issued s)"
  and good_timer_ids: "service_good s \<Longrightarrow> distinct (map (\<lambda>t. fst (snd t)) (timeouts s))"
  by (simp_all add: service_good_def)

lemma service_goodI:
  assumes "sorted_wrt (<) (map fst (issued s))"
    and "list_all (\<lambda>e. fst e \<le> requestIdCounter s) (issued s)"
    and "set (pendingRequests s) \<subseteq> set (issued s)"
    and "distinct (map fst (pendingRequests s))"
    and "snd ` set (timeouts s) \<subseteq> set (issued s)"
    and "distinct (map (\<lambda>t. fst (snd t)) (timeouts s))"
    and "distinct (live s)"
    and "list_all (\<lambda>h. h < calls s) (live s)"
  shows "service_good s"
  unfolding service_good_def using assms by (intro conjI)

lemma good_frame:
  assumes g: "service_good s"
    and i: "issued s' = issued s" and c: "requestIdCounter s' = requestIdCounter s"
    and p: "set (pendingRequests s') \<subseteq> set (pendingRequests s)"
    and k: "distinct (map fst (pendingRequests s'))"
    and t: "set (timeouts s') \<subseteq> set (timeouts s)"
    and ti: "distinct (map (\<lambda>t. fst (snd t)) (timeouts s'))"
    and l: "distinct (live s')" and a: "list_all (\<lambda>h. h < calls s') (live s')"
  shows "service_good s'"
proof (rule service_goodI)
  show "sorted_wrt (<) (map fst (issued s'))" using good_sorted [OF g] by (simp add: i)
  show "list_all (\<lambda>e. fst e \<le> requestIdCounter s') (issued s')"
    using good_le [OF g] by (simp add: i c)
  show "set (pendingRequests s') \<subseteq> set (issued s')"
    unfolding i using good_pending [OF g] p by blast
  show "snd ` set (timeouts s') \<subseteq> set (issued s')"
    unfolding i using good_timers [OF g] t by blast
qed (rule k ti l a)+

lemma good_reject_all: "service_good s \<Longrightarrow> service_good (reject_all msg s)"
proof -
  assume g: "service_good s"
  have l: "live (reject_all msg s) = map fst (converting s) @ map fst (loadingImages s)
      @ map fst (settle_calls s) @ map snd (pendingRequests s)"
    by (simp add: reject_all_def live_def comp_def)
  have c: "calls (reject_all msg s) = calls s" by (simp add: reject_all_def)
  have d: "distinct (live (reject_all msg s))"
    unfolding l using good_live [OF g] unfolding live_def by (rule distinct_rotate4)
  have a: "list_all (\<lambda>h. h < calls (reject_all msg s)) (live (reject_all msg s))"
    unfolding l c using good_calls [OF g] unfolding live_def by (rule list_all_rotate4)
  show ?thesis
  proof (rule good_frame [OF g _ _ _ _ _ _ d a])
    show "distinct (map (\<lambda>t. fst (snd t)) (timeouts (reject_all msg s)))"
      using good_timer_ids [OF g] by (simp add: reject_all_def)
  qed (simp_all add: reject_all_def)
qed

lemma good_initializeWorker: "service_good s \<Longrightarrow> service_good (initializeWorker ok s)"
proof -
  assume g: "service_good s"
  have l1: "live (initializeWorker ok s) = live s" by (simp add: initializeWorker_def)
  show ?thesis
  proof (rule good_frame [OF g])
    show "distinct (map fst (pendingRequests (initializeWorker ok s)))"
      using good_keys [OF g] by (simp add: initializeWorker_def)
    show "distinct (map (\<lambda>t. fst (snd t)) (timeouts (initializeWorker ok s)))"
      using good_timer_ids [OF g] by (simp add: initializeWorker_def)
    show "distinct (live (initializeWorker ok s))" using good_live [OF g] by (simp add: l1)
    show "list_all (\<lambda>h. h < calls (initializeWorker ok s)) (live (initializeWorker ok s))"
      using good_calls [OF g] by (simp add: l1 initializeWorker_def)
  qed (simp_all add: initializeWorker_def)
qed

lemma good_handleWorkerError: "service_good s \<Longrightarrow> service_good (handleWorkerError msg reinit s)"
  by (simp add: handleWorkerError_def good_initializeWorker good_reject_all)

lemma good_terminate: "service_good s \<Longrightarrow> service_good (terminate s)"
proof -
  assume g: "service_good s"
  have "service_good (initializeWorker False s)" using g by (rule good_initializeWorker)
  then have "service_good (s\<lparr>worker := False, workerInitialized := False\<rparr>)"
    by (simp add: initializeWorker_def)
  with g show ?thesis by (simp add: terminate_def good_reject_all)
qed

lemma distinct_add_handle:
  assumes "distinct (ps @ cs @ ls @ ss)" and "h \<notin> set (ps @ cs @ ls @ ss)"
  shows "distinct ((ps @ [h]) @ cs @ ls @ ss)"
    and "distinct (ps @ (cs @ [h]) @ ls @ ss)"
    and "distinct (ps @ cs @ (ls @ [h]) @ ss)"
    and "distinct (ps @ cs @ ls @ (ss @ [h]))"
  using assms by auto

lemma list_all_add_handle:
  assumes "list_all P (ps @ cs @ ls @ ss)" and "P h"
  shows "list_all P ((ps @ [h]) @ cs @ ls @ ss)"
    and "list_all P (ps @ (cs @ [h]) @ ls @ ss)"
    and "list_all P (ps @ cs @ (ls @ [h]) @ ss)"
    and "list_all P (ps @ cs @ ls @ (ss @ [h]))"
  using assms by auto

lemma distinct_remove_handle:
  assumes "distinct (ps @ cs @ ls @ ss)"
  shows "distinct (ps @ filter (\<lambda>x. x \<noteq> h) cs @ ls @ ss)"
    and "distinct (ps @ cs @ filter (\<lambda>x. x \<noteq> h) ls @ ss)"
    and "h \<in> set cs \<Longrightarrow> h \<notin> set (ps @ filter (\<lambda>x. x \<noteq> h) cs @ ls @ ss)"
    and "h \<in> set ls \<Longrightarrow> h \<notin> set (ps @ cs @ filter (\<lambda>x. x \<noteq> h) ls @ ss)"
  using assms by auto

lemma list_all_remove_handle:
  assumes "list_all P (ps @ cs @ ls @ ss)"
  shows "list_all P (ps @ filter Q cs @ ls @ ss)"
    and "list_all P (ps @ cs @ filter Q ls @ ss)"
  using assms by (auto simp: list_all_iff)

lemma map_fst_filter_ne:
  "map fst (filter (\<lambda>c. fst c \<noteq> h) xs) = filter (\<lambda>x. x \<noteq> h) (map fst xs)"
  by (induction xs) auto

text \<open>Frame: a step that touches neither ids, table nor timers.\<close>

lemma good_handles:
  assumes g: "service_good s"
    and "issued s' = issued s" and "requestIdCounter s' = requestIdCounter s"
    and "pendingRequests s' = pendingRequests s" and "timeouts s' = timeouts s"
    and "distinct (live s')" and "list_all (\<lambda>h. h < calls s') (live s')"
  shows "service_good s'"
proof (rule good_frame [OF g])
  show "distinct (map fst (pendingRequests s'))" using good_keys [OF g] assms(4) by simp
  show "distinct (map (\<lambda>t. fst (snd t)) (timeouts s'))"
    using good_timer_ids [OF g] assms(5) by simp
qed (use assms in simp_all)

lemma good_remove_converting:
  assumes g: "service_good s" and h: "h \<in> fst ` set (converting s)"
  defines "s1 \<equiv> s\<lparr>converting := filter (\<lambda>c. fst c \<noteq> h) (converting s)\<rparr>"
  shows "service_good s1" and "h \<notin> set (live s1)" and "h < calls s1"
proof -
  have l: "live s1 = map snd (pendingRequests s) @ filter (\<lambda>x. x \<noteq> h) (map fst (converting s))
      @ map fst (loadingImages s) @ map fst (settle_calls s)"
    by (simp add: s1_def live_def map_fst_filter_ne)
  have c: "calls s1 = calls s" by (simp add: s1_def)
  from h have hin: "h \<in> set (map fst (converting s))" by simp
  have d: "distinct (live s1)"
    unfolding l using good_live [OF g] unfolding live_def by (rule distinct_remove_handle(1))
  have a: "list_all (\<lambda>h. h < calls s1) (live s1)"
    unfolding l c using good_calls [OF g] unfolding live_def by (rule list_all_remove_handle(1))
  show "service_good s1"
    by (rule good_handles [OF g _ _ _ _ d a]) (simp_all add: s1_def)
  show "h \<notin> set (live s1)"
    unfolding l using good_live [OF g] hin unfolding live_def by (rule distinct_remove_handle(3))
  from good_calls [OF g] hin show "h < calls s1"
    unfolding c by (simp add: live_def list_all_iff)
qed

lemma good_remove_loading:
  assumes g: "service_good s" and h: "h \<in> fst ` set (loadingImages s)"
  defines "s1 \<equiv> s\<lparr>loadingImages := filter (\<lambda>c. fst c \<noteq> h) (loadingImages s)\<rparr>"
  shows "service_good s1" and "h \<notin> set (live s1)" and "h < calls s1"
proof -
  have l: "live s1 = map snd (pendingRequests s) @ map fst (converting s)
      @ filter (\<lambda>x. x \<noteq> h) (map fst (loadingImages s)) @ map fst (settle_calls s)"
    by (simp add: s1_def live_def map_fst_filter_ne)
  have c: "calls s1 = calls s" by (simp add: s1_def)
  from h have hin: "h \<in> set (map fst (loadingImages s))" by simp
  have d: "distinct (live s1)"
    unfolding l using good_live [OF g] unfolding live_def by (rule distinct_remove_handle(2))
  have a: "list_all (\<lambda>h. h < calls s1) (live s1)"
    unfolding l c using good_calls [OF g] unfolding live_def by (rule list_all_remove_handle(2))
  show "service_good s1"
    by (rule good_handles [OF g _ _ _ _ d a]) (simp_all add: s1_def)
  show "h \<notin> set (live s1)"
    unfolding l using good_live [OF g] hin unfolding live_def by (rule distinct_remove_handle(4))
  from good_calls [OF g] hin show "h < calls s1"
    unfolding c by (simp add: live_def list_all_iff)
qed

lemma good_add_converting:
  assumes g: "service_good s" and f: "h \<notin> set (live s)" and c: "h < calls s"
  shows "service_good (s\<lparr>converting := converting s @ [(h, u, b)]\<rparr>)"
proof -
  let ?s' = "s\<lparr>converting := converting s @ [(h, u, b)]\<rparr>"
  have l: "live ?s' = map snd (pendingRequests s) @ (map fst (converting s) @ [h])
      @ map fst (loadingImages s) @ map fst (settle_calls s)"
    by (simp add: live_def)
  have cs: "calls ?s' = calls s" by simp
  have d: "distinct (live ?s')"
    unfolding l using good_live [OF g] f unfolding live_def by (rule distinct_add_handle(2))
  have a: "list_all (\<lambda>h. h < calls ?s') (live ?s')"
    unfolding l cs using good_calls [OF g] c unfolding live_def
    by (rule list_all_add_handle(2))
  show ?thesis by (rule good_handles [OF g _ _ _ _ d a]) simp_all
qed

lemma good_add_loading:
  assumes g: "service_good s" and f: "h \<notin> set (live s)" and c: "h < calls s"
  shows "service_good (s\<lparr>loadingImages := loadingImages s @ [(h, u)]\<rparr>)"
proof -
  let ?s' = "s\<lparr>loadingImages := loadingImages s @ [(h, u)]\<rparr>"
  have l: "live ?s' = map snd (pendingRequests s) @ map fst (converting s)
      @ (map fst (loadingImages s) @ [h]) @ map fst (settle_calls s)"
    by (simp add: live_def)
  have cs: "calls ?s' = calls s" by simp
  have d: "distinct (live ?s')"
    unfolding l using good_live [OF g] f unfolding live_def by (rule distinct_add_handle(3))
  have a: "list_all (\<lambda>h. h < calls ?s') (live ?s')"
    unfolding l cs using good_calls [OF g] c unfolding live_def
    by (rule list_all_add_handle(3))
  show ?thesis by (rule good_handles [OF g _ _ _ _ d a]) simp_all
qed

lemma good_settle:
  assumes g: "service_good s" and f: "h \<notin> set (live s)" and c: "h < calls s"
  shows "service_good (settle h x s)"
proof -
  let ?s' = "settle h x s"
  have l: "live ?s' = map snd (pendingRequests s) @ map fst (converting s)
      @ map fst (loadingImages s) @ (map fst (settle_calls s) @ [h])"
    by (simp add: live_def settle_def)
  have cs: "calls ?s' = calls s" by (simp add: settle_def)
  have d: "distinct (live ?s')"
    unfolding l using good_live [OF g] f unfolding live_def by (rule distinct_add_handle(4))
  have a: "list_all (\<lambda>h. h < calls ?s') (live ?s')"
    unfolding l cs using good_calls [OF g] c unfolding live_def
    by (rule list_all_add_handle(4))
  show ?thesis by (rule good_handles [OF g _ _ _ _ d a]) (simp_all add: settle_def)
qed

lemma good_thrown: "service_good s \<Longrightarrow> service_good (s\<lparr>thrown := th\<rparr>)"
proof -
  assume g: "service_good s"
  show ?thesis
    by (rule good_handles [OF g]) (use good_live [OF g] good_calls [OF g] in simp_all)
qed

lemma good_dispatchToWorker:
  assumes g: "service_good s" and lt: "js_incr (requestIdCounter s) < 2 ^ 53"
    and f: "h \<notin> set (live s)" and c: "h < calls s"
  shows "service_good (dispatchToWorker h u s)"
proof -
  let ?n = "requestIdCounter s"
  let ?id = "Suc ?n"
  from js_incr_lt [OF lt] have id: "js_incr ?n = ?id" by (rule conjunct2)
  have le: "fst e \<le> ?n" if "e \<in> set (issued s)" for e
    using good_le [OF g] that by (simp add: list_all_iff)
  have nk: "?id \<notin> fst ` set (pendingRequests s)"
  proof
    assume "?id \<in> fst ` set (pendingRequests s)"
    then obtain e where "e \<in> set (pendingRequests s)" and "fst e = ?id" by auto
    with good_pending [OF g] le [of e] show False by auto
  qed
  then have ms: "map_set (pendingRequests s) ?id h = pendingRequests s @ [(?id, h)]"
    by (simp add: map_set_def map_has_iff)
  have nt: "?id \<notin> (\<lambda>t. fst (snd t)) ` set (timeouts s)"
  proof
    assume "?id \<in> (\<lambda>t. fst (snd t)) ` set (timeouts s)"
    then obtain t where t: "t \<in> set (timeouts s)" and "fst (snd t) = ?id" by auto
    with good_timers [OF g] le [of "snd t"] show False by auto
  qed
  let ?s1 = "s\<lparr>requestIdCounter := ?id, issued := issued s @ [(?id, h)],
               pendingRequests := pendingRequests s @ [(?id, h)]\<rparr>"
  have l1: "live ?s1 = (map snd (pendingRequests s) @ [h]) @ map fst (converting s)
      @ map fst (loadingImages s) @ map fst (settle_calls s)"
    by (simp add: live_def)
  have d1: "distinct (live ?s1)"
    unfolding l1 using good_live [OF g] f unfolding live_def by (rule distinct_add_handle(1))
  have c1: "calls ?s1 = calls s" by simp
  have a1: "list_all (\<lambda>h. h < calls ?s1) (live ?s1)"
    unfolding l1 c1 using good_calls [OF g] c unfolding live_def
    by (rule list_all_add_handle(1))
  have srt: "sorted_wrt (<) (map fst (issued s @ [(?id, h)]))"
    using good_sorted [OF g] le by (auto simp: sorted_wrt_append le_imp_less_Suc)
  have all: "list_all (\<lambda>e. fst e \<le> ?id) (issued s @ [(?id, h)])"
    using le by (auto simp: list_all_iff le_SucI)
  have sub: "set (pendingRequests s @ [(?id, h)]) \<subseteq> set (issued s @ [(?id, h)])"
    using good_pending [OF g] by auto
  have keys: "distinct (map fst (pendingRequests s @ [(?id, h)]))"
    using good_keys [OF g] nk by simp
  have g1: "service_good ?s1"
  proof (rule service_goodI)
    show "snd ` set (timeouts ?s1) \<subseteq> set (issued ?s1)"
      using good_timers [OF g] by auto
    show "distinct (map (\<lambda>t. fst (snd t)) (timeouts ?s1))"
      using good_timer_ids [OF g] by simp
  qed (use srt all sub keys d1 a1 in simp_all)
  show ?thesis
  proof (cases "worker s")
    case True
    let ?s2 = "?s1\<lparr>posted := posted ?s1 @ [(?id, u)],
                  timeouts := timeouts ?s1 @ [(clock ?s1 + DECODE_TIMEOUT, ?id, h)]\<rparr>"
    have l2: "live ?s2 = live ?s1" by simp
    have g2: "service_good ?s2"
    proof (rule service_goodI)
      show "snd ` set (timeouts ?s2) \<subseteq> set (issued ?s2)"
        using good_timers [OF g] by auto
      show "distinct (map (\<lambda>t. fst (snd t)) (timeouts ?s2))"
        using good_timer_ids [OF g] nt by simp
      show "distinct (live ?s2)" unfolding l2 by (rule d1)
      show "list_all (\<lambda>h. h < calls ?s2) (live ?s2)" unfolding l2 using a1 by simp
    qed (use srt all sub keys in simp_all)
    from True have eq: "dispatchToWorker h u s = ?s2"
      by (simp add: dispatchToWorker_def Let_def id ms)
    show ?thesis unfolding eq by (rule g2)
  next
    case False
    have g3: "service_good (?s1\<lparr>thrown := thrown ?s1 @ [(h, ''TypeError'')]\<rparr>)"
      using g1 by (rule good_thrown)
    from False have eq: "dispatchToWorker h u s = ?s1\<lparr>thrown := thrown ?s1 @ [(h, ''TypeError'')]\<rparr>"
      by (simp add: dispatchToWorker_def Let_def id ms)
    show ?thesis unfolding eq by (rule g3)
  qed
qed

lemma good_decodeImageMainThread:
  assumes g: "service_good s" and f: "h \<notin> set (live s)" and c: "h < calls s"
  shows "service_good (decodeImageMainThread h u e s)"
  unfolding decodeImageMainThread_def
  using good_add_converting [OF g f c] good_add_loading [OF g f c] by simp

lemma counter_decodeImageMainThread [simp]:
  "requestIdCounter (decodeImageMainThread h u e s) = requestIdCounter s"
  by (simp add: decodeImageMainThread_def)

lemma good_bump_calls:
  assumes g: "service_good s"
  defines "s0 \<equiv> s\<lparr>calls := Suc (calls s)\<rparr>"
  shows "service_good s0" and "calls s \<notin> set (live s0)" and "calls s < calls s0"
proof -
  have l: "live s0 = live s" by (simp add: s0_def)
  have a: "list_all (\<lambda>h. h < calls s0) (live s0)"
    unfolding l using good_calls [OF g] by (auto simp: s0_def list_all_iff)
  show "service_good s0"
    by (rule good_handles [OF g _ _ _ _ _ a]) (use good_live [OF g] in \<open>simp_all add: l\<close>, simp_all add: s0_def)
  show "calls s \<notin> set (live s0)"
    unfolding l using good_calls [OF g] by (auto simp: list_all_iff)
  show "calls s < calls s0" by (simp add: s0_def)
qed

lemma good_handleWorkerMessage:
  "service_good s \<Longrightarrow> service_good (handleWorkerMessage r ctx s)"
  by (simp add: handleWorkerMessage_def Let_def good_settle_from_pending split: option.splits)

lemma good_timeoutCallback:
  assumes g: "service_good s" and t: "snd t \<in> set (issued s)"
  shows "service_good (timeoutCallback s t)"
proof (cases "map_get (pendingRequests s) (fst (snd t))")
  case None
  with g show ?thesis by (simp add: timeoutCallback_def Let_def map_has_def map_get_def)
next
  case (Some h')
  then have "(fst (snd t), h') \<in> set (pendingRequests s)"
    by (simp add: map_get_def map_of_SomeD)
  with good_pending [OF g] have a: "(fst (snd t), h') \<in> set (issued s)" by blast
  from t have b: "(fst (snd t), snd (snd t)) \<in> set (issued s)" by simp
  from good_sorted [OF g] b a have "snd (snd t) = h'" by (rule issued_fst_unique)
  with Some g show ?thesis
    by (simp add: timeoutCallback_def Let_def map_has_def map_get_def good_settle_from_pending)
qed

lemma issued_timeoutCallback [simp]: "issued (timeoutCallback s t) = issued s"
  by (simp add: timeoutCallback_def Let_def settle_def)

lemma good_fold_timeoutCallback:
  "service_good s \<Longrightarrow> snd ` set due \<subseteq> set (issued s) \<Longrightarrow>
   service_good (foldl timeoutCallback s due)"
proof (induction due arbitrary: s)
  case Nil
  then show ?case by simp
next
  case (Cons t due)
  from Cons.prems have "service_good (timeoutCallback s t)"
    by (simp add: good_timeoutCallback)
  moreover from Cons.prems have "snd ` set due \<subseteq> set (issued (timeoutCallback s t))"
    by simp
  ultimately show ?case using Cons.IH by simp
qed

lemma good_tick: "service_good s \<Longrightarrow> service_good (tick dt s)"
proof -
  assume g: "service_good s"
  let ?now = "clock s + dt"
  let ?s1 = "s\<lparr>clock := ?now, timeouts := filter (\<lambda>t. \<not> fst t \<le> ?now) (timeouts s)\<rparr>"
  have "service_good ?s1"
  proof (rule good_frame [OF g])
    show "distinct (map fst (pendingRequests ?s1))" using good_keys [OF g] by simp
    show "distinct (map (\<lambda>t. fst (snd t)) (timeouts ?s1))"
      using good_timer_ids [OF g] by (simp add: distinct_map_filter)
    show "distinct (live ?s1)" using good_live [OF g] by simp
    show "list_all (\<lambda>h. h < calls ?s1) (live ?s1)" using good_calls [OF g] by simp
  qed simp_all
  moreover have "snd ` set (timeouts s) \<subseteq> set (issued s)"
    by (rule good_timers [OF g])
  then have "snd ` set (filter (\<lambda>t. fst t \<le> ?now) (timeouts s)) \<subseteq> set (issued ?s1)"
    by auto
  ultimately have "service_good (foldl timeoutCallback ?s1 (filter (\<lambda>t. fst t \<le> ?now) (timeouts s)))"
    by (rule good_fold_timeoutCallback)
  then show ?thesis by (simp add: tick_def Let_def)
qed

lemma counter_dispatchToWorker [simp]:
  "requestIdCounter (dispatchToWorker h u s) = js_incr (requestIdCounter s)"
  by (simp add: dispatchToWorker_def Let_def)

lemma good_decodeImage:
  assumes g: "service_good s" and lt: "requestIdCounter (decodeImage u e s) < 2 ^ 53"
  shows "service_good (decodeImage u e s)"
proof -
  let ?s0 = "s\<lparr>calls := Suc (calls s)\<rparr>"
  note b = good_bump_calls [OF g]
  show ?thesis
  proof (cases "\<not> worker s \<or> \<not> workerInitialized s")
    case True
    then have eq: "decodeImage u e s = decodeImageMainThread (calls s) u e ?s0"
      by (auto simp: decodeImage_def Let_def)
    show ?thesis unfolding eq using b by (rule good_decodeImageMainThread)
  next
    case False
    show ?thesis
    proof (cases "startsWith u ''local-file://'' \<and> e")
      case True
      with False have eq: "decodeImage u e s
          = ?s0\<lparr>converting := converting ?s0 @ [(calls s, u, True)]\<rparr>"
        by (simp add: decodeImage_def Let_def)
      show ?thesis unfolding eq using b by (rule good_add_converting)
    next
      case nl: False
      with False have eq: "decodeImage u e s = dispatchToWorker (calls s) u ?s0"
        by (auto simp: decodeImage_def Let_def)
      from lt have "js_incr (requestIdCounter ?s0) < 2 ^ 53" unfolding eq by simp
      with b(1) show ?thesis unfolding eq using b(2,3) by (rule good_dispatchToWorker)
    qed
  qed
qed

lemma good_convertSettled:
  assumes g: "service_good s" and lt: "requestIdCounter (convertSettled h res s) < 2 ^ 53"
  shows "service_good (convertSettled h res s)"
proof (cases "filter (\<lambda>c. fst c = h) (converting s)")
  case Nil
  with g show ?thesis by (simp add: convertSettled_def)
next
  case (Cons c cs)
  then have "c \<in> set (filter (\<lambda>c. fst c = h) (converting s))" by simp
  then have hin: "h \<in> fst ` set (converting s)" by force
  let ?s1 = "s\<lparr>converting := filter (\<lambda>c. fst c \<noteq> h) (converting s)\<rparr>"
  note r = good_remove_converting [OF g hin]
  show ?thesis
  proof (cases "snd (snd c)")
    case True
    show ?thesis
    proof (cases res)
      case None
      with Cons True have eq: "convertSettled h res s = decodeImageMainThread h (fst (snd c)) True ?s1"
        by (simp add: convertSettled_def Let_def)
      show ?thesis unfolding eq using r by (rule good_decodeImageMainThread)
    next
      case (Some u)
      with Cons True have eq: "convertSettled h res s = dispatchToWorker h u ?s1"
        by (simp add: convertSettled_def Let_def)
      from lt have "js_incr (requestIdCounter ?s1) < 2 ^ 53" unfolding eq by simp
      with r(1) show ?thesis unfolding eq using r(2,3) by (rule good_dispatchToWorker)
    qed
  next
    case False
    show ?thesis
    proof (cases res)
      case None
      with Cons False have eq: "convertSettled h res s
          = ?s1\<lparr>thrown := thrown ?s1 @ [(h, ''Cannot load local file'')]\<rparr>"
        by (simp add: convertSettled_def Let_def)
      show ?thesis unfolding eq using r(1) by (rule good_thrown)
    next
      case (Some u)
      with Cons False have eq: "convertSettled h res s
          = ?s1\<lparr>loadingImages := loadingImages ?s1 @ [(h, u)]\<rparr>"
        by (simp add: convertSettled_def Let_def)
      show ?thesis unfolding eq using r by (rule good_add_loading)
    qed
  qed
qed

lemma good_imageSettled: "service_good s \<Longrightarrow> service_good (imageSettled h loaded s)"
proof (cases "h \<in> fst ` set (loadingImages s)")
  case False
  assume "service_good s"
  with False show ?thesis by (simp add: imageSettled_def)
next
  case True
  assume g: "service_good s"
  note r = good_remove_loading [OF g True]
  from True show ?thesis
    using good_settle [OF r] by (simp add: imageSettled_def Let_def)
qed

lemma counter_settle [simp]: "requestIdCounter (settle h x s) = requestIdCounter s"
  by (simp add: settle_def)

lemma counter_timeoutCallback [simp]:
  "requestIdCounter (timeoutCallback s t) = requestIdCounter s"
  by (simp add: timeoutCallback_def Let_def)

lemma counter_fold_timeoutCallback [simp]:
  "requestIdCounter (foldl timeoutCallback s due) = requestIdCounter s"
  by (induction due arbitrary: s) simp_all

lemma js_incr_ge: "n \<le> js_incr n"
  by (simp add: js_incr_def)

lemma counter_mono: "requestIdCounter s \<le> requestIdCounter (service_step s ev)"
proof (cases ev)
  case (DecodeImage u e)
  then show ?thesis by (simp add: decodeImage_def Let_def js_incr_ge)
next
  case (ConvertSettled h res)
  then show ?thesis
    by (simp add: convertSettled_def Let_def js_incr_ge split: list.splits option.splits)
next
  case (WorkerMessage r ctx)
  then show ?thesis by (simp add: handleWorkerMessage_def Let_def split: option.splits)
next
  case (WorkerError msg reinit)
  then show ?thesis by (simp add: handleWorkerError_def initializeWorker_def reject_all_def)
next
  case Terminate
  then show ?thesis by (simp add: terminate_def reject_all_def)
next
  case (ImageSettled h loaded)
  then show ?thesis by (simp add: imageSettled_def Let_def)
next
  case (Tick dt)
  then show ?thesis by (simp add: tick_def Let_def)
qed

lemma good_step:
  assumes g: "service_good s" and lt: "requestIdCounter (service_step s ev) < 2 ^ 53"
  shows "service_good (service_step s ev)"
proof (cases ev)
  case (DecodeImage u e)
  with g lt show ?thesis by (simp add: good_decodeImage)
next
  case (ConvertSettled h res)
  with g lt show ?thesis by (simp add: good_convertSettled)
next
  case (WorkerMessage r ctx)
  with g show ?thesis by (simp add: good_handleWorkerMessage)
next
  case (WorkerError msg reinit)
  with g show ?thesis by (simp add: good_handleWorkerError)
next
  case Terminate
  with g show ?thesis by (simp add: good_terminate)
next
  case (ImageSettled h loaded)
  with g show ?thesis by (simp add: good_imageSettled)
next
  case (Tick dt)
  with g show ?thesis by (simp add: good_tick)
qed

lemma service_run_snoc: "service_run s (evs @ [ev]) = service_step (service_run s evs) ev"
  by (simp add: service_run_def)

lemma good_new: "service_good (new_ImageDecoderService ok)"
  by (simp add: new_ImageDecoderService_def initializeWorker_def service_good_def live_def)

lemma good_run:
  "service_good s \<Longrightarrow> requestIdCounter (service_run s evs) < 2 ^ 53 \<Longrightarrow>
   service_good (service_run s evs)"
proof (induction evs rule: rev_induct)
  case Nil
  then show ?case by (simp add: service_run_def)
next
  case (snoc ev evs)
  have "requestIdCounter (service_run s evs) \<le> requestIdCounter (service_run s (evs @ [ev]))"
    unfolding service_run_snoc by (rule counter_mono)
  with snoc.prems(2) have "requestIdCounter (service_run s evs) < 2 ^ 53" by simp
  with snoc have "service_good (service_run s evs)" by simp
  then show ?case using snoc.prems(2) unfolding service_run_snoc by (rule good_step)
qed

lemma map_of_overwrite_other:
  "k' \<noteq> k \<Longrightarrow> map_of (map (\<lambda>e. if fst e = k then (k, v) else e) m) k' = map_of m k'"
  by (induction m) auto

lemma map_of_snoc_other: "k' \<noteq> k \<Longrightarrow> map_of (m @ [(k, v)]) k' = map_of m k'"
  by (induction m) auto

lemma map_get_map_set_other: "k' \<noteq> k \<Longrightarrow> map_get (map_set m k v) k' = map_get m k'"
proof (cases "map_has m k")
  case True
  assume "k' \<noteq> k"
  then have "map_of (map (\<lambda>e. if fst e = k then (k, v) else e) m) k' = map_of m k'"
    by (rule map_of_overwrite_other)
  with True show ?thesis by (simp add: map_get_def map_set_def)
next
  case False
  assume "k' \<noteq> k"
  then have "map_of (m @ [(k, v)]) k' = map_of m k'"
    by (rule map_of_snoc_other)
  with False show ?thesis by (simp add: map_get_def map_set_def del: map_of_append)
qed

lemma map_get_map_delete_other: "k' \<noteq> k \<Longrightarrow> map_get (map_delete m k) k' = map_get m k'"
  by (induction m) (auto simp: map_get_def map_delete_def)

lemma waiting_dispatchToWorker:
  assumes w: "waiting i h due s" and lt: "js_incr (requestIdCounter s) < 2 ^ 53"
  shows "waiting i h due (dispatchToWorker h' u s)"
proof -
  from js_incr_lt [OF lt] have id: "js_incr (requestIdCounter s) = Suc (requestIdCounter s)"
    by (rule conjunct2)
  from w have "i \<noteq> Suc (requestIdCounter s)" by (simp add: waiting_def)
  then have "map_get (map_set (pendingRequests s) (Suc (requestIdCounter s)) h') i
      = map_get (pendingRequests s) i"
    by (rule map_get_map_set_other)
  with w show ?thesis
    by (simp add: waiting_def dispatchToWorker_def Let_def id)
qed

lemma expired_dispatchToWorker:
  assumes w: "expired i h due s" and lt: "js_incr (requestIdCounter s) < 2 ^ 53"
  shows "expired i h due (dispatchToWorker h' u s)"
proof -
  from js_incr_lt [OF lt] have id: "js_incr (requestIdCounter s) = Suc (requestIdCounter s)"
    by (rule conjunct2)
  from w have "i \<noteq> Suc (requestIdCounter s)" by (simp add: expired_def)
  with w have "\<not> map_has (map_set (pendingRequests s) (Suc (requestIdCounter s)) h') i"
    by (simp add: map_has_map_set expired_def)
  with w show ?thesis
    by (simp add: expired_def dispatchToWorker_def Let_def id)
qed

lemma waiting_decodeImageMainThread:
  "waiting i h due s \<Longrightarrow> waiting i h due (decodeImageMainThread h' u e s)"
  by (simp add: waiting_def decodeImageMainThread_def)

lemma expired_decodeImageMainThread:
  "expired i h due s \<Longrightarrow> expired i h due (decodeImageMainThread h' u e s)"
  by (simp add: expired_def decodeImageMainThread_def)

lemma waiting_calls [simp]: "waiting i h due (s\<lparr>calls := c\<rparr>) = waiting i h due s"
  by (simp add: waiting_def)

lemma expired_calls [simp]: "expired i h due (s\<lparr>calls := c\<rparr>) = expired i h due s"
  by (simp add: expired_def)

lemma waiting_converting [simp]: "waiting i h due (s\<lparr>converting := c\<rparr>) = waiting i h due s"
  by (simp add: waiting_def)

lemma expired_converting [simp]: "expired i h due (s\<lparr>converting := c\<rparr>) = expired i h due s"
  by (simp add: expired_def)

lemma waiting_loadingImages [simp]:
  "waiting i h due (s\<lparr>loadingImages := c\<rparr>) = waiting i h due s"
  by (simp add: waiting_def)

lemma expired_loadingImages [simp]:
  "expired i h due (s\<lparr>loadingImages := c\<rparr>) = expired i h due s"
  by (simp add: expired_def)

lemma waiting_decodeImage:
  assumes w: "waiting i h due s" and lt: "requestIdCounter (decodeImage u e s) < 2 ^ 53"
  shows "waiting i h due (decodeImage u e s)"
proof -
  from w have wk: "worker s" "workerInitialized s" by (simp_all add: waiting_def)
  show ?thesis
  proof (cases "startsWith u ''local-file://'' \<and> e")
    case True
    with wk w show ?thesis by (simp add: decodeImage_def Let_def)
  next
    case False
    with wk have eq: "decodeImage u e s = dispatchToWorker (calls s) u (s\<lparr>calls := Suc (calls s)\<rparr>)"
      by (auto simp: decodeImage_def Let_def)
    from lt have "js_incr (requestIdCounter (s\<lparr>calls := Suc (calls s)\<rparr>)) < 2 ^ 53"
      unfolding eq by simp
    with w show ?thesis unfolding eq by (simp add: waiting_dispatchToWorker)
  qed
qed

lemma expired_decodeImage:
  assumes w: "expired i h due s" and lt: "requestIdCounter (decodeImage u e s) < 2 ^ 53"
  shows "expired i h due (decodeImage u e s)"
proof -
  from w have wk: "worker s" "workerInitialized s" by (simp_all add: expired_def)
  show ?thesis
  proof (cases "startsWith u ''local-file://'' \<and> e")
    case True
    with wk w show ?thesis by (simp add: decodeImage_def Let_def)
  next
    case False
    with wk have eq: "decodeImage u e s = dispatchToWorker (calls s) u (s\<lparr>calls := Suc (calls s)\<rparr>)"
      by (auto simp: decodeImage_def Let_def)
    from lt have "js_incr (requestIdCounter (s\<lparr>calls := Suc (calls s)\<rparr>)) < 2 ^ 53"
      unfolding eq by simp
    with w show ?thesis unfolding eq by (simp add: expired_dispatchToWorker)
  qed
qed

text \<open>Consequences of the invariant for one promise.\<close>

lemma pending_handle_apart:
  assumes g: "service_good s" and p: "map_get (pendingRequests s) i = Some h"
  shows "h \<notin> fst ` set (converting s)" and "h \<notin> fst ` set (loadingImages s)"
    and "h \<notin> fst ` set (settle_calls s)"
    and "map_get (pendingRequests s) j = Some h' \<Longrightarrow> j \<noteq> i \<Longrightarrow> h' \<noteq> h"
proof -
  from p have mem: "(i, h) \<in> set (pendingRequests s)"
    by (simp add: map_get_def map_of_SomeD)
  then have hin: "h \<in> set (map snd (pendingRequests s))" by force
  from good_live [OF g] hin
  show "h \<notin> fst ` set (converting s)" and "h \<notin> fst ` set (loadingImages s)"
    and "h \<notin> fst ` set (settle_calls s)"
    by (auto simp: live_def)
  from good_live [OF g] have dv: "distinct (map snd (pendingRequests s))"
    by (simp add: live_def)
  show "h' \<noteq> h" if q: "map_get (pendingRequests s) j = Some h'" and ne: "j \<noteq> i"
  proof
    assume "h' = h"
    with q have "(j, h) \<in> set (pendingRequests s)" by (simp add: map_get_def map_of_SomeD)
    with dv mem have "i = j" by (rule snd_unique)
    with ne show False by simp
  qed
qed

lemma settled_handle_apart:
  assumes g: "service_good s" and p: "h \<in> fst ` set (settle_calls s)"
  shows "h \<notin> fst ` set (converting s)" and "h \<notin> fst ` set (loadingImages s)"
    and "h \<notin> snd ` set (pendingRequests s)"
  using good_live [OF g] p by (auto simp: live_def)

lemma filter_unique:
  "distinct (map fst xs) \<Longrightarrow> (h, x) \<in> set xs \<Longrightarrow> filter (\<lambda>c. fst c = h) xs = [(h, x)]"
  by (induction xs) (force simp: filter_empty_conv)+

lemma good_settled_once: "service_good s \<Longrightarrow> distinct (map fst (settle_calls s))"
  using good_live [of s] by (simp add: live_def)

lemma expired_settled: "expired i h due s \<Longrightarrow> h \<in> fst ` set (settle_calls s)"
proof -
  assume "expired i h due s"
  then have "filter (\<lambda>c. fst c = h) (settle_calls s) = [(h, Reject ''Image decode timeout'')]"
    by (simp add: expired_def)
  then have "(h, Reject ''Image decode timeout'') \<in> set (filter (\<lambda>c. fst c = h) (settle_calls s))"
    by simp
  then show ?thesis by force
qed

lemma waiting_settle_other:
  "waiting i h due s \<Longrightarrow> h' \<noteq> h \<Longrightarrow> waiting i h due (settle h' x s)"
  by (simp add: waiting_def settle_def)

lemma expired_settle_other:
  "expired i h due s \<Longrightarrow> h' \<noteq> h \<Longrightarrow> expired i h due (settle h' x s)"
  by (simp add: expired_def settle_def)

lemma waiting_delete_other:
  "waiting i h due s \<Longrightarrow> j \<noteq> i \<Longrightarrow>
   waiting i h due (s\<lparr>pendingRequests := map_delete (pendingRequests s) j\<rparr>)"
  by (simp add: waiting_def map_get_map_delete_other)

lemma expired_delete:
  "expired i h due s \<Longrightarrow> expired i h due (s\<lparr>pendingRequests := map_delete (pendingRequests s) j\<rparr>)"
  by (simp add: expired_def map_has_map_delete)

lemma waiting_thrown_other:
  "waiting i h due s \<Longrightarrow> h' \<noteq> h \<Longrightarrow> waiting i h due (s\<lparr>thrown := thrown s @ [(h', m)]\<rparr>)"
  by (simp add: waiting_def)

lemma expired_thrown_other:
  "expired i h due s \<Longrightarrow> h' \<noteq> h \<Longrightarrow> expired i h due (s\<lparr>thrown := thrown s @ [(h', m)]\<rparr>)"
  by (simp add: expired_def)

lemma waiting_handleWorkerMessage:
  assumes g: "service_good s" and w: "waiting i h due s" and q: "resp_id r \<noteq> i"
  shows "waiting i h due (handleWorkerMessage r ctx s)"
proof (cases "map_get (pendingRequests s) (resp_id r)")
  case None
  with w show ?thesis by (simp add: handleWorkerMessage_def)
next
  case (Some h')
  from w have p: "map_get (pendingRequests s) i = Some h" by (simp add: waiting_def)
  from pending_handle_apart(4) [OF g p Some q] have ne: "h' \<noteq> h" .
  from w q have "waiting i h due (s\<lparr>pendingRequests := map_delete (pendingRequests s) (resp_id r)\<rparr>)"
    by (rule waiting_delete_other)
  with ne Some show ?thesis
    by (simp add: handleWorkerMessage_def Let_def waiting_settle_other)
qed

lemma expired_handleWorkerMessage:
  assumes g: "service_good s" and w: "expired i h due s"
  shows "expired i h due (handleWorkerMessage r ctx s)"
proof (cases "map_get (pendingRequests s) (resp_id r)")
  case None
  with w show ?thesis by (simp add: handleWorkerMessage_def)
next
  case (Some h')
  then have "(resp_id r, h') \<in> set (pendingRequests s)"
    by (simp add: map_get_def map_of_SomeD)
  then have "h' \<in> snd ` set (pendingRequests s)" by force
  with settled_handle_apart(3) [OF g expired_settled [OF w]] have ne: "h' \<noteq> h" by auto
  from w have "expired i h due (s\<lparr>pendingRequests := map_delete (pendingRequests s) (resp_id r)\<rparr>)"
    by (rule expired_delete)
  with ne Some show ?thesis
    by (simp add: handleWorkerMessage_def Let_def expired_settle_other)
qed

lemma waiting_imageSettled:
  assumes g: "service_good s" and w: "waiting i h due s"
  shows "waiting i h due (imageSettled h' loaded s)"
proof (cases "h' \<in> fst ` set (loadingImages s)")
  case False
  with w show ?thesis by (simp add: imageSettled_def)
next
  case True
  from w have p: "map_get (pendingRequests s) i = Some h" by (simp add: waiting_def)
  from pending_handle_apart(2) [OF g p] True have ne: "h' \<noteq> h" by auto
  from True w ne show ?thesis
    by (simp add: imageSettled_def Let_def waiting_settle_other)
qed

lemma expired_imageSettled:
  assumes g: "service_good s" and w: "expired i h due s"
  shows "expired i h due (imageSettled h' loaded s)"
proof (cases "h' \<in> fst ` set (loadingImages s)")
  case False
  with w show ?thesis by (simp add: imageSettled_def)
next
  case True
  from settled_handle_apart(2) [OF g expired_settled [OF w]] True have ne: "h' \<noteq> h" by auto
  from True w ne show ?thesis
    by (simp add: imageSettled_def Let_def expired_settle_other)
qed

lemma waiting_convertSettled:
  assumes g: "service_good s" and w: "waiting i h due s"
    and lt: "requestIdCounter (convertSettled h' res s) < 2 ^ 53"
  shows "waiting i h due (convertSettled h' res s)"
proof (cases "filter (\<lambda>c. fst c = h') (converting s)")
  case Nil
  with w show ?thesis by (simp add: convertSettled_def)
next
  case (Cons c cs)
  then have "c \<in> set (filter (\<lambda>c. fst c = h') (converting s))" by simp
  then have hin: "h' \<in> fst ` set (converting s)" by force
  from w have p: "map_get (pendingRequests s) i = Some h" by (simp add: waiting_def)
  from pending_handle_apart(1) [OF g p] hin have ne: "h' \<noteq> h" by auto
  let ?s1 = "s\<lparr>converting := filter (\<lambda>c. fst c \<noteq> h') (converting s)\<rparr>"
  from w have w1: "waiting i h due ?s1" by simp
  show ?thesis
  proof (cases "snd (snd c)")
    case True
    show ?thesis
    proof (cases res)
      case None
      with Cons True have eq: "convertSettled h' res s = decodeImageMainThread h' (fst (snd c)) True ?s1"
        by (simp add: convertSettled_def Let_def)
      show ?thesis unfolding eq using w1 by (rule waiting_decodeImageMainThread)
    next
      case (Some u)
      with Cons True have eq: "convertSettled h' res s = dispatchToWorker h' u ?s1"
        by (simp add: convertSettled_def Let_def)
      from lt have "js_incr (requestIdCounter ?s1) < 2 ^ 53" unfolding eq by simp
      with w1 show ?thesis unfolding eq by (rule waiting_dispatchToWorker)
    qed
  next
    case False
    show ?thesis
    proof (cases res)
      case None
      with Cons False have eq: "convertSettled h' res s
          = ?s1\<lparr>thrown := thrown ?s1 @ [(h', ''Cannot load local file'')]\<rparr>"
        by (simp add: convertSettled_def Let_def)
      show ?thesis unfolding eq using w1 ne by (rule waiting_thrown_other)
    next
      case (Some u)
      with Cons False have eq: "convertSettled h' res s
          = ?s1\<lparr>loadingImages := loadingImages ?s1 @ [(h', u)]\<rparr>"
        by (simp add: convertSettled_def Let_def)
      show ?thesis unfolding eq using w1 by simp
    qed
  qed
qed

lemma expired_convertSettled:
  assumes g: "service_good s" and w: "expired i h due s"
    and lt: "requestIdCounter (convertSettled h' res s) < 2 ^ 53"
  shows "expired i h due (convertSettled h' res s)"
proof (cases "filter (\<lambda>c. fst c = h') (converting s)")
  case Nil
  with w show ?thesis by (simp add: convertSettled_def)
next
  case (Cons c cs)
  then have "c \<in> set (filter (\<lambda>c. fst c = h') (converting s))" by simp
  then have hin: "h' \<in> fst ` set (converting s)" by force
  from settled_handle_apart(1) [OF g expired_settled [OF w]] hin have ne: "h' \<noteq> h" by auto
  let ?s1 = "s\<lparr>converting := filter (\<lambda>c. fst c \<noteq> h') (converting s)\<rparr>"
  from w have w1: "expired i h due ?s1" by simp
  show ?thesis
  proof (cases "snd (snd c)")
    case True
    show ?thesis
    proof (cases res)
      case None
      with Cons True have eq: "convertSettled h' res s = decodeImageMainThread h' (fst (snd c)) True ?s1"
        by (simp add: convertSettled_def Let_def)
      show ?thesis unfolding eq using w1 by (rule expired_decodeImageMainThread)
    next
      case (Some u)
      with Cons True have eq: "convertSettled h' res s = dispatchToWorker h' u ?s1"
        by (simp add: convertSettled_def Let_def)
      from lt have "js_incr (requestIdCounter ?s1) < 2 ^ 53" unfolding eq by simp
      with w1 show ?thesis unfolding eq by (rule expired_dispatchToWorker)
    qed
  next
    case False
    show ?thesis
    proof (cases res)
      case None
      with Cons False have eq: "convertSettled h' res s
          = ?s1\<lparr>thrown := thrown ?s1 @ [(h', ''Cannot load local file'')]\<rparr>"
        by (simp add: convertSettled_def Let_def)
      show ?thesis unfolding eq using w1 ne by (rule expired_thrown_other)
    next
      case (Some u)
      with Cons False have eq: "convertSettled h' res s
          = ?s1\<lparr>loadingImages := loadingImages ?s1 @ [(h', u)]\<rparr>"
        by (simp add: convertSettled_def Let_def)
      show ?thesis unfolding eq using w1 by simp
    qed
  qed
qed

lemma timer_owner:
  assumes g: "service_good s" and t: "snd t \<in> set (issued s)"
    and p: "map_get (pendingRequests s) (fst (snd t)) = Some h'"
  shows "snd (snd t) = h'"
proof -
  from p have "(fst (snd t), h') \<in> set (pendingRequests s)"
    by (simp add: map_get_def map_of_SomeD)
  with good_pending [OF g] have a: "(fst (snd t), h') \<in> set (issued s)" by blast
  from t have b: "(fst (snd t), snd (snd t)) \<in> set (issued s)" by simp
  from good_sorted [OF g] b a show ?thesis by (rule issued_fst_unique)
qed

lemma still_timeoutCallback_other:
  assumes g: "service_good s" and st: "still i h s" and ne: "fst (snd t) \<noteq> i"
    and t: "snd t \<in> set (issued s)"
  shows "still i h (timeoutCallback s t)"
proof (cases "map_get (pendingRequests s) (fst (snd t))")
  case None
  with st show ?thesis by (simp add: timeoutCallback_def Let_def map_has_def map_get_def)
next
  case (Some h')
  from st have p: "map_get (pendingRequests s) i = Some h" by (simp add: still_def)
  from timer_owner [OF g t Some] have own: "snd (snd t) = h'" .
  from pending_handle_apart(4) [OF g p Some ne] have "h' \<noteq> h" .
  with st ne Some own show ?thesis
    by (simp add: timeoutCallback_def Let_def map_has_def still_def settle_def
        map_get_map_delete_other)
qed

lemma timed_out_timeoutCallback: "timed_out i h s \<Longrightarrow> timed_out i h (timeoutCallback s t)"
  by (simp add: timed_out_def timeoutCallback_def Let_def settle_def map_has_map_delete)

lemma timed_out_fold: "timed_out i h s \<Longrightarrow> timed_out i h (foldl timeoutCallback s due)"
  by (induction due arbitrary: s) (simp_all add: timed_out_timeoutCallback)

lemma still_fold:
  "service_good s \<Longrightarrow> still i h s \<Longrightarrow> snd ` set due \<subseteq> set (issued s) \<Longrightarrow>
   i \<notin> (\<lambda>t. fst (snd t)) ` set due \<Longrightarrow> still i h (foldl timeoutCallback s due)"
proof (induction due arbitrary: s)
  case Nil
  then show ?case by simp
next
  case (Cons t due)
  from Cons.prems have g': "service_good (timeoutCallback s t)"
    by (simp add: good_timeoutCallback)
  from Cons.prems have "still i h (timeoutCallback s t)"
    by (intro still_timeoutCallback_other) auto
  with g' Cons.prems show ?case using Cons.IH [of "timeoutCallback s t"] by simp
qed

lemma fire_own_timeout:
  assumes st: "still i h s"
  shows "timed_out i h (timeoutCallback s (d, i, h))"
proof -
  from st have "map_has (pendingRequests s) i" by (simp add: still_def map_has_def map_get_def)
  then show ?thesis
    by (simp add: timed_out_def timeoutCallback_def Let_def settle_def map_has_map_delete)
qed

lemma fire_fold:
  "service_good s \<Longrightarrow> still i h s \<Longrightarrow> snd ` set due \<subseteq> set (issued s) \<Longrightarrow>
   distinct (map (\<lambda>t. fst (snd t)) due) \<Longrightarrow> (d, i, h) \<in> set due \<Longrightarrow>
   timed_out i h (foldl timeoutCallback s due)"
proof (induction due arbitrary: s)
  case Nil
  then show ?case by simp
next
  case (Cons t due)
  show ?case
  proof (cases "t = (d, i, h)")
    case True
    from Cons.prems(2) have "timed_out i h (timeoutCallback s (d, i, h))"
      by (rule fire_own_timeout)
    then have "timed_out i h (foldl timeoutCallback (timeoutCallback s (d, i, h)) due)"
      by (rule timed_out_fold)
    with True show ?thesis by simp
  next
    case False
    with Cons.prems(5) have mem: "(d, i, h) \<in> set due" by simp
    then have "i \<in> (\<lambda>t. fst (snd t)) ` set due" by force
    with Cons.prems(4) have ne: "fst (snd t) \<noteq> i" by auto
    from Cons.prems have g': "service_good (timeoutCallback s t)"
      by (simp add: good_timeoutCallback)
    from Cons.prems ne have "still i h (timeoutCallback s t)"
      by (intro still_timeoutCallback_other) auto
    with g' Cons.prems mem show ?thesis using Cons.IH [of "timeoutCallback s t"] by simp
  qed
qed

lemma frame_timeoutCallback [simp]:
  "thrown (timeoutCallback s t) = thrown s"
  "worker (timeoutCallback s t) = worker s"
  "workerInitialized (timeoutCallback s t) = workerInitialized s"
  "clock (timeoutCallback s t) = clock s"
  "timeouts (timeoutCallback s t) = timeouts s"
  by (simp_all add: timeoutCallback_def Let_def settle_def)

lemma frame_fold_timeoutCallback [simp]:
  "thrown (foldl timeoutCallback s due) = thrown s"
  "worker (foldl timeoutCallback s due) = worker s"
  "workerInitialized (foldl timeoutCallback s due) = workerInitialized s"
  "clock (foldl timeoutCallback s due) = clock s"
  "timeouts (foldl timeoutCallback s due) = timeouts s"
  by (induction due arbitrary: s) simp_all

lemma waiting_tick:
  assumes g: "service_good s" and w: "waiting i h due s"
  shows "(clock (tick dt s) < due \<and> waiting i h due (tick dt s)) \<or>
         (due \<le> clock (tick dt s) \<and> expired i h due (tick dt s))"
proof -
  let ?now = "clock s + dt"
  let ?due = "filter (\<lambda>t. fst t \<le> ?now) (timeouts s)"
  let ?s1 = "s\<lparr>clock := ?now, timeouts := filter (\<lambda>t. \<not> fst t \<le> ?now) (timeouts s)\<rparr>"
  have eq: "tick dt s = foldl timeoutCallback ?s1 ?due" by (simp add: tick_def Let_def)
  have g1: "service_good ?s1"
  proof (rule good_frame [OF g])
    show "distinct (map fst (pendingRequests ?s1))" using good_keys [OF g] by simp
    show "distinct (map (\<lambda>t. fst (snd t)) (timeouts ?s1))"
      using good_timer_ids [OF g] by (simp add: distinct_map_filter)
    show "distinct (live ?s1)" using good_live [OF g] by simp
    show "list_all (\<lambda>h. h < calls ?s1) (live ?s1)" using good_calls [OF g] by simp
  qed simp_all
  from w have st: "still i h ?s1" by (simp add: waiting_def still_def)
  from good_timers [OF g] have sub: "snd ` set ?due \<subseteq> set (issued ?s1)" by auto
  from w have mem: "(due, i, h) \<in> set (timeouts s)" by (simp add: waiting_def)
  from good_timer_ids [OF g] have dd: "distinct (map (\<lambda>t. fst (snd t)) ?due)"
    by (simp add: distinct_map_filter)
  have clk: "clock (tick dt s) = ?now" unfolding eq by simp
  show ?thesis
  proof (cases "due \<le> ?now")
    case True
    with mem have "(due, i, h) \<in> set ?due" by simp
    with g1 st sub dd have to: "timed_out i h (tick dt s)"
      unfolding eq by (rule fire_fold)
    from g have "service_good (tick dt s)" by (rule good_tick)
    then have "distinct (map fst (settle_calls (tick dt s)))" by (rule good_settled_once)
    with to have "filter (\<lambda>c. fst c = h) (settle_calls (tick dt s))
        = [(h, Reject ''Image decode timeout'')]"
      by (simp add: timed_out_def filter_unique)
    with to True w show ?thesis
      unfolding expired_def clk by (simp add: timed_out_def) (simp add: eq waiting_def)
  next
    case False
    have "i \<notin> (\<lambda>t. fst (snd t)) ` set ?due"
    proof
      assume "i \<in> (\<lambda>t. fst (snd t)) ` set ?due"
      then obtain t where t: "t \<in> set (timeouts s)" and le: "fst t \<le> ?now"
        and it: "fst (snd t) = i" by auto
      from good_timer_ids [OF g] have "inj_on (\<lambda>t. fst (snd t)) (set (timeouts s))"
        by (simp add: distinct_map)
      from inj_onD [OF this _ t mem] it have "t = (due, i, h)" by simp
      with le False show False by simp
    qed
    with g1 st sub have "still i h (tick dt s)" unfolding eq by (rule still_fold)
    with False w mem show ?thesis
      unfolding waiting_def clk by (simp add: still_def) (simp add: eq waiting_def)
  qed
qed

lemma settle_calls_timeoutCallback:
  "set (settle_calls s) \<subseteq> set (settle_calls (timeoutCallback s t))"
  by (auto simp: timeoutCallback_def Let_def settle_def)

lemma expired_tick:
  assumes g: "service_good s" and w: "expired i h due s"
  shows "expired i h due (tick dt s)"
proof -
  let ?now = "clock s + dt"
  let ?due = "filter (\<lambda>t. fst t \<le> ?now) (timeouts s)"
  let ?s1 = "s\<lparr>clock := ?now, timeouts := filter (\<lambda>t. \<not> fst t \<le> ?now) (timeouts s)\<rparr>"
  have eq: "tick dt s = foldl timeoutCallback ?s1 ?due" by (simp add: tick_def Let_def)
  from w have "(h, Reject ''Image decode timeout'') \<in> set (filter (\<lambda>c. fst c = h) (settle_calls s))"
    by (simp add: expired_def)
  then have "(h, Reject ''Image decode timeout'') \<in> set (settle_calls s)" by simp
  with w have "timed_out i h ?s1" by (simp add: timed_out_def expired_def)
  then have to: "timed_out i h (tick dt s)" unfolding eq by (rule timed_out_fold)
  from g have "service_good (tick dt s)" by (rule good_tick)
  then have "distinct (map fst (settle_calls (tick dt s)))" by (rule good_settled_once)
  with to have "filter (\<lambda>c. fst c = h) (settle_calls (tick dt s))
      = [(h, Reject ''Image decode timeout'')]"
    by (simp add: timed_out_def filter_unique)
  with to w show ?thesis
    unfolding expired_def by (simp add: timed_out_def) (simp add: eq expired_def)
qed

lemma thrown_inv_frame:
  assumes "thrown_inv s" and "thrown s' = thrown s" and "calls s \<le> calls s'"
    and "fst ` set (converting s') \<union> fst ` set (loadingImages s')
           \<subseteq> fst ` set (converting s) \<union> fst ` set (loadingImages s) \<union> {h}"
    and "h \<notin> fst ` set (thrown s)"
  shows "thrown_inv s'"
  using assms unfolding thrown_inv_def list_all_iff by (auto 4 3)

lemma thrown_inv_throw:
  assumes "thrown_inv s" and "h < calls s"
    and "h \<notin> fst ` set (converting s)" and "h \<notin> fst ` set (loadingImages s)"
  shows "thrown_inv (s\<lparr>thrown := thrown s @ [(h, m)]\<rparr>)"
  using assms unfolding thrown_inv_def list_all_iff by auto

lemma thrown_dispatchToWorker:
  "thrown (dispatchToWorker h u s) = (if worker s then thrown s else thrown s @ [(h, ''TypeError'')])"
  "converting (dispatchToWorker h u s) = converting s"
  "loadingImages (dispatchToWorker h u s) = loadingImages s"
  "calls (dispatchToWorker h u s) = calls s"
  by (simp_all add: dispatchToWorker_def Let_def)

lemma thrown_inv_dispatchToWorker:
  assumes "thrown_inv s" and "h \<notin> set (live s)" and "h < calls s"
  shows "thrown_inv (dispatchToWorker h u s)"
  using assms unfolding thrown_inv_def thrown_dispatchToWorker list_all_iff live_def
  by auto

lemma thrown_inv_decodeImageMainThread:
  assumes "thrown_inv s" and "h \<notin> fst ` set (thrown s)"
  shows "thrown_inv (decodeImageMainThread h u e s)"
  using assms unfolding thrown_inv_def list_all_iff decodeImageMainThread_def by auto

lemma thrown_inv_decodeImage:
  assumes t: "thrown_inv s" and g: "service_good s"
  shows "thrown_inv (decodeImage u e s)"
proof -
  let ?s0 = "s\<lparr>calls := Suc (calls s)\<rparr>"
  note b = good_bump_calls [OF g]
  from t have t0: "thrown_inv ?s0" unfolding thrown_inv_def list_all_iff by auto
  from t have fresh: "calls s \<notin> fst ` set (thrown ?s0)"
    unfolding thrown_inv_def list_all_iff by auto
  show ?thesis
  proof (cases "\<not> worker s \<or> \<not> workerInitialized s")
    case True
    then have eq: "decodeImage u e s = decodeImageMainThread (calls s) u e ?s0"
      by (auto simp: decodeImage_def Let_def)
    show ?thesis unfolding eq using t0 fresh by (rule thrown_inv_decodeImageMainThread)
  next
    case False
    show ?thesis
    proof (cases "startsWith u ''local-file://'' \<and> e")
      case True
      with False have eq: "decodeImage u e s
          = ?s0\<lparr>converting := converting ?s0 @ [(calls s, u, True)]\<rparr>"
        by (simp add: decodeImage_def Let_def)
      show ?thesis unfolding eq using t0 fresh unfolding thrown_inv_def list_all_iff by auto
    next
      case nl: False
      with False have eq: "decodeImage u e s = dispatchToWorker (calls s) u ?s0"
        by (auto simp: decodeImage_def Let_def)
      show ?thesis unfolding eq using t0 b(2,3) by (rule thrown_inv_dispatchToWorker)
    qed
  qed
qed

lemma thrown_inv_convertSettled:
  assumes t: "thrown_inv s" and g: "service_good s"
  shows "thrown_inv (convertSettled h res s)"
proof (cases "filter (\<lambda>c. fst c = h) (converting s)")
  case Nil
  with t show ?thesis by (simp add: convertSettled_def)
next
  case (Cons c cs)
  then have "c \<in> set (filter (\<lambda>c. fst c = h) (converting s))" by simp
  then have hin: "h \<in> fst ` set (converting s)" by force
  let ?s1 = "s\<lparr>converting := filter (\<lambda>c. fst c \<noteq> h) (converting s)\<rparr>"
  note r = good_remove_converting [OF g hin]
  from t have t1: "thrown_inv ?s1" unfolding thrown_inv_def list_all_iff by auto
  from t hin have fresh: "h \<notin> fst ` set (thrown ?s1)" unfolding thrown_inv_def by auto
  from r(2) have nc: "h \<notin> fst ` set (converting ?s1)" and nl: "h \<notin> fst ` set (loadingImages ?s1)"
    by (auto simp: live_def)
  show ?thesis
  proof (cases "snd (snd c)")
    case True
    show ?thesis
    proof (cases res)
      case None
      with Cons True have eq: "convertSettled h res s = decodeImageMainThread h (fst (snd c)) True ?s1"
        by (simp add: convertSettled_def Let_def)
      show ?thesis unfolding eq using t1 fresh by (rule thrown_inv_decodeImageMainThread)
    next
      case (Some u)
      with Cons True have eq: "convertSettled h res s = dispatchToWorker h u ?s1"
        by (simp add: convertSettled_def Let_def)
      show ?thesis unfolding eq using t1 r(2,3) by (rule thrown_inv_dispatchToWorker)
    qed
  next
    case False
    show ?thesis
    proof (cases res)
      case None
      with Cons False have eq: "convertSettled h res s
          = ?s1\<lparr>thrown := thrown ?s1 @ [(h, ''Cannot load local file'')]\<rparr>"
        by (simp add: convertSettled_def Let_def)
      show ?thesis unfolding eq using t1 r(3) nc nl by (rule thrown_inv_throw)
    next
      case (Some u)
      with Cons False have eq: "convertSettled h res s
          = ?s1\<lparr>loadingImages := loadingImages ?s1 @ [(h, u)]\<rparr>"
        by (simp add: convertSettled_def Let_def)
      show ?thesis unfolding eq using t1 fresh unfolding thrown_inv_def list_all_iff by auto
    qed
  qed
qed

lemma thrown_inv_step:
  assumes t: "thrown_inv s" and g: "service_good s"
  shows "thrown_inv (service_step s ev)"
proof (cases ev)
  case (DecodeImage u e)
  with t g show ?thesis by (simp add: thrown_inv_decodeImage)
next
  case (ConvertSettled h res)
  with t g show ?thesis by (simp add: thrown_inv_convertSettled)
next
  case (WorkerMessage r ctx)
  with t show ?thesis
    by (simp add: handleWorkerMessage_def Let_def settle_def thrown_inv_def split: option.splits)
next
  case (WorkerError msg reinit)
  with t show ?thesis
    by (simp add: handleWorkerError_def initializeWorker_def reject_all_def thrown_inv_def)
next
  case Terminate
  with t show ?thesis by (simp add: terminate_def reject_all_def thrown_inv_def)
next
  case (ImageSettled h loaded)
  with t show ?thesis
    unfolding thrown_inv_def list_all_iff by (auto simp: imageSettled_def Let_def settle_def)
next
  case (Tick dt)
  have "converting (foldl timeoutCallback s' due) = converting s'
      \<and> loadingImages (foldl timeoutCallback s' due) = loadingImages s'
      \<and> calls (foldl timeoutCallback s' due) = calls s'" for s' due
    by (induction due arbitrary: s') (simp_all add: timeoutCallback_def Let_def settle_def)
  with t Tick show ?thesis by (simp add: tick_def Let_def thrown_inv_def)
qed

lemma thrown_inv_new: "thrown_inv (new_ImageDecoderService ok)"
  by (simp add: new_ImageDecoderService_def initializeWorker_def thrown_inv_def)

lemma thrown_inv_run:
  "service_good s \<Longrightarrow> thrown_inv s \<Longrightarrow> requestIdCounter (service_run s evs) < 2 ^ 53 \<Longrightarrow>
   thrown_inv (service_run s evs)"
proof (induction evs rule: rev_induct)
  case Nil
  then show ?case by (simp add: service_run_def)
next
  case (snoc ev evs)
  have "requestIdCounter (service_run s evs) \<le> requestIdCounter (service_run s (evs @ [ev]))"
    unfolding service_run_snoc by (rule counter_mono)
  with snoc.prems(3) have lt: "requestIdCounter (service_run s evs) < 2 ^ 53" by simp
  with snoc have "thrown_inv (service_run s evs)" by simp
  moreover from snoc.prems(1) lt have "service_good (service_run s evs)" by (rule good_run)
  ultimately show ?case unfolding service_run_snoc by (rule thrown_inv_step)
qed

lemma phase_step:
  assumes g: "service_good s" and lt: "requestIdCounter (service_step s ev) < 2 ^ 53"
    and q: "quiet i ev" and p: "waiting i h due s \<or> expired i h due s"
  shows "waiting i h due (service_step s ev) \<or> expired i h due (service_step s ev)"
proof (cases ev)
  case (DecodeImage u e)
  with lt p show ?thesis by (auto simp: waiting_decodeImage expired_decodeImage)
next
  case (ConvertSettled h' res)
  with g lt p show ?thesis by (auto simp: waiting_convertSettled expired_convertSettled)
next
  case (WorkerMessage r ctx)
  with g q p show ?thesis by (auto simp: waiting_handleWorkerMessage expired_handleWorkerMessage)
next
  case (WorkerError msg reinit)
  with q show ?thesis by simp
next
  case Terminate
  with q show ?thesis by simp
next
  case (ImageSettled h' loaded)
  with g p show ?thesis by (auto simp: waiting_imageSettled expired_imageSettled)
next
  case (Tick dt)
  from p show ?thesis
  proof
    assume "waiting i h due s"
    from waiting_tick [OF g this, of dt] Tick show ?thesis by auto
  next
    assume "expired i h due s"
    from expired_tick [OF g this, of dt] Tick show ?thesis by simp
  qed
qed

lemma phase_run:
  "service_good s \<Longrightarrow> requestIdCounter (service_run s evs) < 2 ^ 53 \<Longrightarrow>
   list_all (quiet i) evs \<Longrightarrow> waiting i h due s \<or> expired i h due s \<Longrightarrow>
   waiting i h due (service_run s evs) \<or> expired i h due (service_run s evs)"
proof (induction evs rule: rev_induct)
  case Nil
  then show ?case by (simp add: service_run_def)
next
  case (snoc ev evs)
  have "requestIdCounter (service_run s evs) \<le> requestIdCounter (service_run s (evs @ [ev]))"
    unfolding service_run_snoc by (rule counter_mono)
  with snoc.prems(2) have lt: "requestIdCounter (service_run s evs) < 2 ^ 53" by simp
  from snoc.prems(1) lt have g: "service_good (service_run s evs)" by (rule good_run)
  from snoc lt have ph: "waiting i h due (service_run s evs) \<or> expired i h due (service_run s evs)"
    by simp
  from snoc.prems(3) have q: "quiet i ev" by simp
  from snoc.prems(2) have lt': "requestIdCounter (service_step (service_run s evs) ev) < 2 ^ 53"
    by (simp add: service_run_snoc)
  show ?case unfolding service_run_snoc using g lt' q ph by (rule phase_step)
qed

lemma map_get_map_set_same: "map_get (map_set m k v) k = Some v"
proof (cases "map_has m k")
  case True
  then have "k \<in> fst ` set m" by (simp add: map_has_iff)
  then have "map_of (map (\<lambda>e. if fst e = k then (k, v) else e) m) k = Some v"
    by (induction m) auto
  with True show ?thesis by (simp add: map_get_def map_set_def)
next
  case False
  then have "map_of m k = None" by (simp add: map_has_def)
  then have "map_of (m @ [(k, v)]) k = Some v" by (simp add: map_add_def)
  with False show ?thesis by (simp add: map_get_def map_set_def del: map_of_append)
qed

text \<open>A step that allocates an id while the worker exists leaves the request waiting.\<close>

lemma waiting_after_dispatch:
  assumes g: "service_good s" and t: "thrown_inv s"
    and lt: "requestIdCounter (service_step s ev) < 2 ^ 53"
    and w: "worker s" "workerInitialized s"
    and a: "issued (service_step s ev) = issued s @ [(i, h)]"
  shows "waiting i h (clock s + DECODE_TIMEOUT) (service_step s ev)"
proof -
  have disp: "waiting (Suc (requestIdCounter s0)) h' (clock s0 + DECODE_TIMEOUT)
      (dispatchToWorker h' u s0)"
    if "js_incr (requestIdCounter s0) < 2 ^ 53" and "worker s0" and "workerInitialized s0"
      and "h' \<notin> fst ` set (settle_calls s0)" and "h' \<notin> fst ` set (thrown s0)"
    for s0 h' u
  proof -
    from js_incr_lt [OF that(1)] have id: "js_incr (requestIdCounter s0) = Suc (requestIdCounter s0)"
      by (rule conjunct2)
    from that(2-5) show ?thesis
      by (simp add: waiting_def dispatchToWorker_def Let_def id map_get_map_set_same
          DECODE_TIMEOUT_def)
  qed
  have iss: "issued (dispatchToWorker h' u s0) = issued s0 @ [(js_incr (requestIdCounter s0), h')]"
    for s0 h' u
    by (simp add: dispatchToWorker_def Let_def)
  show ?thesis
  proof (cases ev)
    case (DecodeImage u e)
    let ?s0 = "s\<lparr>calls := Suc (calls s)\<rparr>"
    note b = good_bump_calls [OF g]
    show ?thesis
    proof (cases "startsWith u ''local-file://'' \<and> e")
      case True
      with w DecodeImage a show ?thesis by (simp add: decodeImage_def Let_def)
    next
      case False
      with w have eq: "decodeImage u e s = dispatchToWorker (calls s) u ?s0"
        by (auto simp: decodeImage_def Let_def)
      from lt DecodeImage have l0: "js_incr (requestIdCounter ?s0) < 2 ^ 53" by (simp add: eq)
      from js_incr_lt [OF l0] have id: "js_incr (requestIdCounter s) = Suc (requestIdCounter s)"
        by simp
      from a DecodeImage have ih: "i = Suc (requestIdCounter s)" "h = calls s"
        by (simp_all add: eq iss id)
      from b(2) have ns: "calls s \<notin> fst ` set (settle_calls ?s0)" by (auto simp: live_def)
      from t have nt: "calls s \<notin> fst ` set (thrown ?s0)"
        unfolding thrown_inv_def list_all_iff by auto
      from disp [OF l0 _ _ ns nt, of u] w DecodeImage show ?thesis
        by (simp add: eq ih)
    qed
  next
    case (ConvertSettled h' res)
    show ?thesis
    proof (cases "filter (\<lambda>c. fst c = h') (converting s)")
      case Nil
      with ConvertSettled a show ?thesis by (simp add: convertSettled_def)
    next
      case (Cons c cs)
      then have "c \<in> set (filter (\<lambda>c. fst c = h') (converting s))" by simp
      then have hin: "h' \<in> fst ` set (converting s)" by force
      let ?s1 = "s\<lparr>converting := filter (\<lambda>c. fst c \<noteq> h') (converting s)\<rparr>"
      note r = good_remove_converting [OF g hin]
      show ?thesis
      proof (cases "snd (snd c) \<and> res \<noteq> None")
        case False
        with Cons ConvertSettled a show ?thesis
          by (auto simp: convertSettled_def Let_def decodeImageMainThread_def
              split: option.splits if_splits)
      next
        case True
        then obtain u where res: "res = Some u" by auto
        with Cons True have eq: "convertSettled h' res s = dispatchToWorker h' u ?s1"
          by (simp add: convertSettled_def Let_def)
        from lt ConvertSettled have l0: "js_incr (requestIdCounter ?s1) < 2 ^ 53"
          by (simp add: eq)
        from js_incr_lt [OF l0] have id: "js_incr (requestIdCounter s) = Suc (requestIdCounter s)"
          by simp
        from a ConvertSettled have ih: "i = Suc (requestIdCounter s)" "h = h'"
          by (simp_all add: eq iss id)
        from r(2) have ns: "h' \<notin> fst ` set (settle_calls ?s1)" by (auto simp: live_def)
        from t hin have nt: "h' \<notin> fst ` set (thrown ?s1)" unfolding thrown_inv_def by auto
        from disp [OF l0 _ _ ns nt, of u] w ConvertSettled show ?thesis
          by (simp add: eq ih)
      qed
    qed
  next
    case (WorkerMessage r ctx)
    with a show ?thesis
      by (simp add: handleWorkerMessage_def Let_def settle_def split: option.splits if_splits)
  next
    case (WorkerError msg reinit)
    with a show ?thesis by (simp add: handleWorkerError_def initializeWorker_def reject_all_def)
  next
    case Terminate
    with a show ?thesis by (simp add: terminate_def reject_all_def split: if_splits)
  next
    case (ImageSettled h' loaded)
    with a show ?thesis by (simp add: imageSettled_def Let_def settle_def split: if_splits)
  next
    case (Tick dt)
    have "issued (foldl timeoutCallback s' due) = issued s'" for s' due
      by (induction due arbitrary: s') simp_all
    with a Tick show ?thesis by (simp add: tick_def Let_def)
  qed
qed

lemma counter_mono_run: "requestIdCounter s \<le> requestIdCounter (service_run s evs)"
proof (induction evs rule: rev_induct)
  case Nil
  show ?case by (simp add: service_run_def)
next
  case (snoc ev evs)
  have "requestIdCounter (service_run s evs) \<le> requestIdCounter (service_run s (evs @ [ev]))"
    unfolding service_run_snoc by (rule counter_mono)
  with snoc show ?case by simp
qed

lemma promise_state_waiting: "waiting i h due s \<Longrightarrow> promise_state s h = Pending"
proof -
  assume w: "waiting i h due s"
  then have "h \<notin> fst ` set (settle_calls s)" by (simp add: waiting_def)
  then have "filter (\<lambda>c. fst c = h) (settle_calls s) = []"
    by (auto simp: filter_empty_conv)
  with w show ?thesis by (simp add: promise_state_def waiting_def)
qed

lemma promise_state_expired: "expired i h due s \<Longrightarrow> promise_state s h = Rejected"
  by (simp add: promise_state_def expired_def)

text \<open>
  C10. A request that reaches the worker path takes the next value of the counter as its
  id. In every reachable state in which the counter is below \<open>2^53\<close> (where \<open>++\<close> stops
  counting), the ids issued so far grow strictly, so none is reused, and no promise has
  had its \<open>resolve\<close> or \<open>reject\<close> called twice. A worker response whose id is not in the
  table of pending requests leaves the service exactly as it was.
\<close>

theorem request_ids_fresh_settled_once:
  "requestIdCounter (dispatchToWorker h u s) = js_incr (requestIdCounter s) \<and>
   issued (dispatchToWorker h u s) = issued s @ [(js_incr (requestIdCounter s), h)] \<and>
   (requestIdCounter (service_run (new_ImageDecoderService ok) evs) < 2 ^ 53 \<longrightarrow>
      sorted_wrt (<) (map fst (issued (service_run (new_ImageDecoderService ok) evs))) \<and>
      distinct (map fst (settle_calls (service_run (new_ImageDecoderService ok) evs)))) \<and>
   (\<not> map_has (pendingRequests s) (resp_id r) \<longrightarrow> handleWorkerMessage r ctx s = s)"
proof -
  have a: "requestIdCounter (dispatchToWorker h u s) = js_incr (requestIdCounter s)"
    and b: "issued (dispatchToWorker h u s) = issued s @ [(js_incr (requestIdCounter s), h)]"
    by (simp_all add: dispatchToWorker_def Let_def)
  have c: "sorted_wrt (<) (map fst (issued (service_run (new_ImageDecoderService ok) evs))) \<and>
      distinct (map fst (settle_calls (service_run (new_ImageDecoderService ok) evs)))"
    if "requestIdCounter (service_run (new_ImageDecoderService ok) evs) < 2 ^ 53"
  proof -
    from good_new that have "service_good (service_run (new_ImageDecoderService ok) evs)"
      by (rule good_run)
    then show ?thesis by (simp add: good_sorted good_settled_once)
  qed
  have d: "handleWorkerMessage r ctx s = s" if "\<not> map_has (pendingRequests s) (resp_id r)"
    using that by (simp add: handleWorkerMessage_def map_has_def map_get_def)
  from a b c d show ?thesis by blast
qed

lemma timed_out_run_eval:
  "service_run (new_ImageDecoderService True) timed_out_run
     = \<lparr>worker = True, workerInitialized = True, pendingRequests = [], requestIdCounter = 1,
        clock = 30000, calls = 1, issued = [(1, 0)],
        posted = [(1, ''https://example.com/a.png'')], timeouts = [],
        settle_calls = [(0, Reject ''Image decode timeout'')], thrown = [], converting = [],
        loadingImages = []\<rparr>"
  by (simp add: timed_out_run_def service_run_def new_ImageDecoderService_def initializeWorker_def
      decodeImage_def dispatchToWorker_def js_incr_def startsWith_def Let_def map_set_def
      map_has_def tick_def timeoutCallback_def settle_def map_delete_def DECODE_TIMEOUT_def)

theorem request_ids_fresh_settled_once_witness:
  "requestIdCounter (service_run (new_ImageDecoderService True) timed_out_run) < 2 ^ 53 \<and>
   \<not> map_has (pendingRequests (service_run (new_ImageDecoderService True) timed_out_run))
       (resp_id late_response) \<and>
   map fst (issued (service_run (new_ImageDecoderService True) timed_out_run)) = [1] \<and>
   settle_calls (handleWorkerMessage late_response True
       (service_run (new_ImageDecoderService True) timed_out_run))
     = [(0, Reject ''Image decode timeout'')]"
proof -
  let ?s = "service_run (new_ImageDecoderService True) timed_out_run"
  have h1: "requestIdCounter ?s < 2 ^ 53" unfolding timed_out_run_eval by simp
  have h2: "\<not> map_has (pendingRequests ?s) (resp_id late_response)"
    unfolding timed_out_run_eval by (simp add: map_has_def)
  have e1: "map fst (issued ?s) = [1]" unfolding timed_out_run_eval by simp
  have e2: "settle_calls ?s = [(0, Reject ''Image decode timeout'')]"
    unfolding timed_out_run_eval by simp
  from request_ids_fresh_settled_once [of 0 "[]" ?s True timed_out_run late_response True]
    h1 h2 e1 e2
  show ?thesis by simp
qed

text \<open>
  C5, as stated, fails for a request that takes the main-thread path. Here the worker
  could not be created; \<open>decodeImage\<close> falls back to \<open>decodeImageMainThread\<close>, which arms
  no timeout: the image neither loads nor fails, and after 30 seconds, and after ten
  more minutes, the promise is still pending.
\<close>

theorem main_thread_decode_has_no_timeout:
  "\<not> worker (new_ImageDecoderService False) \<and>
   promise_state
     (service_run (new_ImageDecoderService False)
        [DecodeImage ''https://example.com/a.png'' False, Tick 30000, Tick 600000]) 0 = Pending \<and>
   timeouts
     (service_run (new_ImageDecoderService False)
        [DecodeImage ''https://example.com/a.png'' False, Tick 30000, Tick 600000]) = [] \<and>
   settle_calls
     (service_run (new_ImageDecoderService False)
        [DecodeImage ''https://example.com/a.png'' False, Tick 30000, Tick 600000]) = []"
  by (simp add: service_run_def new_ImageDecoderService_def initializeWorker_def
      decodeImage_def decodeImageMainThread_def startsWith_def Let_def tick_def
      promise_state_def)

text \<open>
  C5, amended. Take a reachable state in which the worker exists, and a step that
  dispatches a request to it (allocates id \<open>i\<close> for promise \<open>h\<close>). If afterwards no
  worker response for \<open>i\<close>, no worker error and no \<open>terminate\<close> occurs, then as long as
  less than 30000 ms have passed the request is in the table and its promise pending;
  once 30000 ms have passed, \<open>i\<close> is out of the table and the only call of the promise's
  functions is \<open>reject\<close> with the timeout error; a later request for the same resource
  is posted to the worker under a new, larger id.
\<close>

theorem worker_request_times_out:
  assumes s: "s = service_run (new_ImageDecoderService ok) evs0"
    and w: "worker s" "workerInitialized s"
    and a: "issued (service_step s ev) = issued s @ [(i, h)]"
    and q: "list_all (quiet i) evs"
    and s': "s' = service_run (service_step s ev) evs"
    and lt: "requestIdCounter s' < 2 ^ 53"
  shows "(clock s' < clock s + DECODE_TIMEOUT \<longrightarrow>
           map_get (pendingRequests s') i = Some h \<and> promise_state s' h = Pending) \<and>
         (clock s + DECODE_TIMEOUT \<le> clock s' \<longrightarrow>
           \<not> map_has (pendingRequests s') i \<and>
           filter (\<lambda>c. fst c = h) (settle_calls s') = [(h, Reject ''Image decode timeout'')] \<and>
           promise_state s' h = Rejected \<and>
           i < js_incr (requestIdCounter s') \<and>
           posted (dispatchToWorker (calls s') u s')
             = posted s' @ [(js_incr (requestIdCounter s'), u)])"
proof -
  let ?due = "clock s + DECODE_TIMEOUT"
  have "requestIdCounter (service_step s ev) \<le> requestIdCounter s'"
    unfolding s' by (rule counter_mono_run)
  with lt have lt1: "requestIdCounter (service_step s ev) < 2 ^ 53" by simp
  have "requestIdCounter s \<le> requestIdCounter (service_step s ev)" by (rule counter_mono)
  with lt1 have lt0: "requestIdCounter s < 2 ^ 53" by simp
  from good_new lt0 have g: "service_good s" unfolding s by (rule good_run)
  from good_new thrown_inv_new lt0 have t: "thrown_inv s" unfolding s by (rule thrown_inv_run)
  from g t lt1 w a have w1: "waiting i h ?due (service_step s ev)"
    by (rule waiting_after_dispatch)
  from g lt1 have g1: "service_good (service_step s ev)" by (rule good_step)
  from lt have lt': "requestIdCounter (service_run (service_step s ev) evs) < 2 ^ 53"
    by (simp add: s')
  from w1 have "waiting i h ?due (service_step s ev) \<or> expired i h ?due (service_step s ev)" ..
  with g1 lt' q have ph: "waiting i h ?due s' \<or> expired i h ?due s'"
    unfolding s' by (rule phase_run)
  have early: "map_get (pendingRequests s') i = Some h \<and> promise_state s' h = Pending"
    if "clock s' < ?due"
  proof -
    from ph that have "waiting i h ?due s'" by (auto simp: expired_def)
    then show ?thesis by (simp add: promise_state_waiting) (simp add: waiting_def)
  qed
  have late: "\<not> map_has (pendingRequests s') i \<and>
      filter (\<lambda>c. fst c = h) (settle_calls s') = [(h, Reject ''Image decode timeout'')] \<and>
      promise_state s' h = Rejected \<and> i < js_incr (requestIdCounter s') \<and>
      posted (dispatchToWorker (calls s') u s') = posted s' @ [(js_incr (requestIdCounter s'), u)]"
    if "?due \<le> clock s'"
  proof -
    from ph that have e: "expired i h ?due s'" by (auto simp: waiting_def)
    then have "i \<le> requestIdCounter s'" and ws: "worker s'" by (simp_all add: expired_def)
    with lt have "i < js_incr (requestIdCounter s')" by (simp add: js_incr_def)
    moreover from ws have "posted (dispatchToWorker (calls s') u s')
        = posted s' @ [(js_incr (requestIdCounter s'), u)]"
      by (simp add: dispatchToWorker_def Let_def)
    ultimately show ?thesis using e
      by (simp add: promise_state_expired) (simp add: expired_def)
  qed
  from early late show ?thesis by blast
qed

lemmas service_defs =
  service_run_def new_ImageDecoderService_def initializeWorker_def
  decodeImage_def dispatchToWorker_def js_incr_def startsWith_def Let_def map_set_def
  map_has_def map_get_def tick_def timeoutCallback_def settle_def map_delete_def
  DECODE_TIMEOUT_def handleWorkerMessage_def

lemma first_request_eval:
  "service_step (service_run (new_ImageDecoderService True) [])
       (DecodeImage ''https://example.com/a.png'' False)
     = \<lparr>worker = True, workerInitialized = True, pendingRequests = [(1, 0)],
        requestIdCounter = 1, clock = 0, calls = 1, issued = [(1, 0)],
        posted = [(1, ''https://example.com/a.png'')], timeouts = [(30000, 1, 0)],
        settle_calls = [], thrown = [], converting = [], loadingImages = []\<rparr>"
  by (simp add: service_defs)

lemma busy_run_eval:
  "service_run
     (service_step (service_run (new_ImageDecoderService True) [])
        (DecodeImage ''https://example.com/a.png'' False)) busy_run
     = \<lparr>worker = True, workerInitialized = True, pendingRequests = [],
        requestIdCounter = 2, clock = 30000, calls = 2, issued = [(1, 0), (2, 1)],
        posted = [(1, ''https://example.com/a.png''), (2, ''https://example.com/b.png'')],
        timeouts = [(40000, 2, 1)],
        settle_calls = [(1, Resolve (DecodedImageResult (Some 9) None None)),
                        (0, Reject ''Image decode timeout'')],
        thrown = [], converting = [], loadingImages = []\<rparr>"
  unfolding first_request_eval
  by (simp add: busy_run_def other_response_def service_defs)

theorem worker_request_times_out_witness:
  "worker (service_run (new_ImageDecoderService True) []) \<and>
   workerInitialized (service_run (new_ImageDecoderService True) []) \<and>
   list_all (quiet 1) busy_run \<and>
   pendingRequests (service_run
     (service_step (service_run (new_ImageDecoderService True) [])
        (DecodeImage ''https://example.com/a.png'' False)) busy_run) = [] \<and>
   filter (\<lambda>c. fst c = 0) (settle_calls (service_run
     (service_step (service_run (new_ImageDecoderService True) [])
        (DecodeImage ''https://example.com/a.png'' False)) busy_run))
     = [(0, Reject ''Image decode timeout'')] \<and>
   promise_state (service_run
     (service_step (service_run (new_ImageDecoderService True) [])
        (DecodeImage ''https://example.com/a.png'' False)) busy_run) 0 = Rejected"
proof -
  let ?s = "service_run (new_ImageDecoderService True) []"
  let ?ev = "DecodeImage ''https://example.com/a.png'' False"
  let ?s' = "service_run (service_step ?s ?ev) busy_run"
  have w: "worker ?s" "workerInitialized ?s"
    by (simp_all add: service_run_def new_ImageDecoderService_def initializeWorker_def)
  have a: "issued (service_step ?s ?ev) = issued ?s @ [(1, 0)]"
    unfolding first_request_eval
    by (simp add: service_run_def new_ImageDecoderService_def initializeWorker_def)
  have q: "list_all (quiet 1) busy_run" by (simp add: busy_run_def other_response_def)
  have lt: "requestIdCounter ?s' < 2 ^ 53" unfolding busy_run_eval by simp
  have c: "clock ?s + DECODE_TIMEOUT \<le> clock ?s'"
    unfolding busy_run_eval
    by (simp add: service_run_def new_ImageDecoderService_def initializeWorker_def
        DECODE_TIMEOUT_def)
  have p: "pendingRequests ?s' = []" unfolding busy_run_eval by simp
  from worker_request_times_out [OF refl w a q refl lt, of "''https://example.com/a.png''"] c w q p
  show ?thesis by simp
qed

section \<open>Facts and claims about VideoMetadataLRUCache\<close>

lemma evict_while_full_room: "length (vcache c) < vmaxSize c \<Longrightarrow> evict_while_full c = c"
  by (subst evict_while_full.simps) simp

lemma video_set_no_eviction:
  assumes "\<not> map_has (vcache c) key" and "length (vcache c) < vmaxSize c"
    and "\<not> getMemoryUsage c > of_nat (maxMemoryMB c)"
  shows "video_set c key v = c\<lparr>vcache := vcache c @ [(key, v)]\<rparr>"
  using assms
  by (simp add: video_set_def evictIfNeeded_def evict_while_full_room Let_def map_set_def)

lemma getMemoryUsage_gt:
  "getMemoryUsage c > of_nat (maxMemoryMB c) \<longleftrightarrow> totalSize c > maxMemoryMB c * 1048576"
proof -
  have "getMemoryUsage c > of_nat (maxMemoryMB c)
      \<longleftrightarrow> (of_nat (maxMemoryMB c) :: rat) * 1048576 < of_nat (totalSize c)"
    by (simp add: getMemoryUsage_def pos_less_divide_eq)
  also have "\<dots> \<longleftrightarrow> (of_nat (maxMemoryMB c * 1048576) :: rat) < of_nat (totalSize c)"
    by simp
  also have "\<dots> \<longleftrightarrow> maxMemoryMB c * 1048576 < totalSize c"
    by (simp only: of_nat_less_iff)
  finally show ?thesis .
qed

lemma digits_eval: "digits 3840 = 4" "digits 2160 = 4" "digits 60 = 2"
  by simp_all

lemma uhd_entry_bytes: "entry_bytes (video_key i, uhd_metadata) = i + 2000070"
  by (simp add: entry_bytes_def uhd_metadata_def poster_of_length_def video_key_def
      startsWith_def json_bytes_def)

lemma uhd_videos_Suc: "uhd_videos (Suc n) = uhd_videos n @ [(video_key n, uhd_metadata)]"
  by (simp add: uhd_videos_def)

lemma uhd_total_bounds:
  "n * 2000070 \<le> sum_list (map entry_bytes (uhd_videos n)) \<and>
   sum_list (map entry_bytes (uhd_videos n)) \<le> n * (2000070 + n)"
proof (induction n)
  case 0
  show ?case by (simp add: uhd_videos_def)
next
  case (Suc n)
  then show ?case
    by (simp add: uhd_videos_Suc uhd_entry_bytes algebra_simps)
qed

lemma video_key_inj: "video_key i = video_key j \<Longrightarrow> i = j"
proof -
  assume "video_key i = video_key j"
  then have "length (video_key i) = length (video_key j)" by simp
  then show ?thesis by (simp add: video_key_def)
qed

lemma video_key_fresh: "\<not> map_has (uhd_videos n) (video_key n)"
proof
  assume "map_has (uhd_videos n) (video_key n)"
  then obtain i where "i < n" and "video_key n = video_key i"
    by (auto simp: map_has_iff uhd_videos_def)
  then show False using video_key_inj [of n i] by simp
qed

lemma video_sets_snoc: "video_sets c (kvs @ [(k, v)]) = video_set (video_sets c kvs) k v"
  by (simp add: video_sets_def)

lemma uhd_videos_cached:
  "n \<le> 79 \<Longrightarrow>
   video_sets videoMetadataCache0 (uhd_videos n) = videoMetadataCache0\<lparr>vcache := uhd_videos n\<rparr>"
proof (induction n)
  case 0
  show ?case
    by (simp add: video_sets_def uhd_videos_def videoMetadataCache0_def
        new_VideoMetadataLRUCache_def)
next
  case (Suc n)
  let ?c = "videoMetadataCache0\<lparr>vcache := uhd_videos n\<rparr>"
  from Suc have st: "video_sets videoMetadataCache0 (uhd_videos n) = ?c" by simp
  have fresh: "\<not> map_has (vcache ?c) (video_key n)" by (simp add: video_key_fresh)
  from Suc.prems have room: "length (vcache ?c) < vmaxSize ?c"
    by (simp add: uhd_videos_def videoMetadataCache0_def new_VideoMetadataLRUCache_def
        VIDEO_METADATA_CACHE_SIZE_def)
  from Suc.prems have n: "n \<le> 78" by simp
  have "totalSize ?c \<le> n * (2000070 + n)"
    using uhd_total_bounds [of n] by (simp add: totalSize_def)
  also from n have "n * (2000070 + n) \<le> 78 * (2000070 + 78)"
    by (intro mult_le_mono) simp_all
  finally have "totalSize ?c \<le> 150 * 1048576" by simp
  then have calm: "\<not> getMemoryUsage ?c > of_nat (maxMemoryMB ?c)"
    unfolding getMemoryUsage_gt
    by (simp add: videoMetadataCache0_def new_VideoMetadataLRUCache_def
        VIDEO_METADATA_MEMORY_LIMIT_MB_def)
  from video_set_no_eviction [OF fresh room calm]
  show ?case
    unfolding uhd_videos_Suc video_sets_snoc st by simp
qed

lemma uhd_79_over_ceiling:
  "getMemoryUsage (videoMetadataCache0\<lparr>vcache := uhd_videos 79\<rparr>)
     > of_nat (maxMemoryMB (videoMetadataCache0\<lparr>vcache := uhd_videos 79\<rparr>))"
proof -
  let ?c = "videoMetadataCache0\<lparr>vcache := uhd_videos 79\<rparr>"
  have "(150::nat) * 1048576 < 79 * 2000070" by simp
  also have "\<dots> \<le> totalSize ?c"
    using uhd_total_bounds [of 79] by (simp add: totalSize_def)
  finally have "maxMemoryMB ?c * 1048576 < totalSize ?c"
    by (simp add: videoMetadataCache0_def new_VideoMetadataLRUCache_def
        VIDEO_METADATA_MEMORY_LIMIT_MB_def)
  then show ?thesis by (simp only: getMemoryUsage_gt)
qed

text \<open>
  C2, as stated, fails. The metadata cache (at most 200 entries, 150 MB) receives the
  posters of 79 videos, one \<open>set\<close> each. Before the last \<open>set\<close> the estimate is below the
  ceiling, so the eviction pass removes nothing; after it the cache holds 79 entries and
  its estimated cost is above 150 MB.
\<close>

theorem memory_ceiling_exceeded_after_set:
  "length (vcache (video_sets videoMetadataCache0 (uhd_videos 79))) = 79 \<and>
   getMemoryUsage (video_sets videoMetadataCache0 (uhd_videos 79))
     > of_nat (maxMemoryMB (video_sets videoMetadataCache0 (uhd_videos 79)))"
proof -
  have st: "video_sets videoMetadataCache0 (uhd_videos 79)
      = videoMetadataCache0\<lparr>vcache := uhd_videos 79\<rparr>"
    by (rule uhd_videos_cached) simp
  show ?thesis unfolding st using uhd_79_over_ceiling by (simp add: uhd_videos_def)
qed

lemma evict_oldest_drop: "distinct (map fst m) \<Longrightarrow> evict_oldest k m = drop k m"
proof (induction k arbitrary: m)
  case 0
  show ?case by simp
next
  case (Suc k)
  show ?case
  proof (cases m)
    case Nil
    then show ?thesis by (simp add: map_first_key_def)
  next
    case (Cons e es)
    with Suc.prems have del: "map_delete m (fst e) = es"
      using map_delete_first [of e es] by simp
    from Suc.prems Cons have "distinct (map fst es)" by simp
    then have "evict_oldest k es = drop k es" by (rule Suc.IH)
    with Cons del show ?thesis by (simp add: map_first_key_def)
  qed
qed

lemma evict_while_full_drop:
  "distinct (map fst (vcache c)) \<Longrightarrow>
   evict_while_full c = c\<lparr>vcache := drop (length (vcache c) - (vmaxSize c - 1)) (vcache c)\<rparr>"
proof (induction c rule: evict_while_full.induct)
  case (1 c)
  show ?case
  proof (cases "length (vcache c) \<ge> vmaxSize c")
    case False
    then have "length (vcache c) - (vmaxSize c - 1) = 0" by simp
    with False show ?thesis by (subst evict_while_full.simps) simp
  next
    case True
    show ?thesis
    proof (cases "vcache c")
      case Nil
      with True show ?thesis
        by (subst evict_while_full.simps) (simp add: map_first_key_def)
    next
      case (Cons e es)
      from "1.prems" Cons have del: "map_delete (vcache c) (fst e) = es"
        using map_delete_first [of e es] by simp
      from "1.prems" Cons have d: "distinct (map fst es)" by simp
      let ?c' = "c\<lparr>vcache := es\<rparr>"
      from Cons have fk: "map_first_key (vcache c) = Some (fst e)"
        by (simp add: map_first_key_def)
      from "1.IH" [OF True fk] d del
      have ih: "evict_while_full ?c'
          = ?c'\<lparr>vcache := drop (length es - (vmaxSize c - 1)) es\<rparr>"
        by simp
      from True Cons have "length (vcache c) - (vmaxSize c - 1) = Suc (length es - (vmaxSize c - 1))"
        by simp
      with Cons have dr: "drop (length (vcache c) - (vmaxSize c - 1)) (vcache c)
          = drop (length es - (vmaxSize c - 1)) es"
        by simp
      have "evict_while_full c = evict_while_full ?c'"
        using True fk del by (subst evict_while_full.simps) simp
      with ih dr show ?thesis by simp
    qed
  qed
qed

lemma sum_list_drop_le: "sum_list (map f (drop k xs)) \<le> (sum_list (map f xs) :: nat)"
proof -
  have "sum_list (map f xs) = sum_list (map f (take k xs)) + sum_list (map f (drop k xs))"
    by (metis append_take_drop_id map_append sum_list.append)
  then show ?thesis by simp
qed

text \<open>
  C2, amended. \<open>set\<close> on a key that is present replaces the entry and evicts nothing.
  \<open>set\<close> on a new key first runs one eviction pass over the entries already cached:
  the oldest entries are dropped until fewer than \<open>maxSize\<close> remain; then, if the estimate
  of what remains is above \<open>maxMemoryMB\<close>, the oldest \<open>Math.ceil(size * 0.2)\<close> of them are
  dropped, in one pass. The pass never raises the estimate. The new entry is appended
  after the pass, and nothing bounds the estimate after that.
\<close>

theorem video_set_eviction_pass:
  assumes d: "distinct (map fst (vcache c))"
  shows "(map_has (vcache c) key \<longrightarrow>
            video_set c key v = c\<lparr>vcache := map_delete (vcache c) key @ [(key, v)]\<rparr>) \<and>
         (\<not> map_has (vcache c) key \<longrightarrow>
            evictIfNeeded c =
              (let c1 = c\<lparr>vcache := drop (length (vcache c) - (vmaxSize c - 1)) (vcache c)\<rparr>
               in if getMemoryUsage c1 > of_nat (maxMemoryMB c)
                  then c1\<lparr>vcache := drop (entriesToEvict (length (vcache c1))) (vcache c1)\<rparr>
                  else c1) \<and>
            video_set c key v
              = (evictIfNeeded c)\<lparr>vcache := vcache (evictIfNeeded c) @ [(key, v)]\<rparr> \<and>
            totalSize (evictIfNeeded c) \<le> totalSize c)"
proof -
  let ?c1 = "c\<lparr>vcache := drop (length (vcache c) - (vmaxSize c - 1)) (vcache c)\<rparr>"
  have w: "evict_while_full c = ?c1" using d by (rule evict_while_full_drop)
  from d have d1: "distinct (map fst (vcache ?c1))" by (simp add: drop_map [symmetric])
  have ev: "evictIfNeeded c =
      (if getMemoryUsage ?c1 > of_nat (maxMemoryMB c)
       then ?c1\<lparr>vcache := drop (entriesToEvict (length (vcache ?c1))) (vcache ?c1)\<rparr>
       else ?c1)"
    unfolding evictIfNeeded_def w Let_def using evict_oldest_drop [OF d1] by simp
  have sub: "set (vcache (evictIfNeeded c)) \<subseteq> set (vcache c)"
    unfolding ev by (auto dest: in_set_dropD)
  have tot: "totalSize (evictIfNeeded c) \<le> totalSize c"
  proof -
    have a: "totalSize ?c1 \<le> totalSize c" by (simp add: totalSize_def sum_list_drop_le)
    have "sum_list (map entry_bytes (drop k (vcache ?c1)))
        \<le> sum_list (map entry_bytes (vcache ?c1))" for k
      by (rule sum_list_drop_le)
    then have "totalSize (?c1\<lparr>vcache := drop (entriesToEvict (length (vcache ?c1))) (vcache ?c1)\<rparr>)
        \<le> totalSize ?c1"
      unfolding totalSize_def by (simp del: drop_drop length_drop)
    with a show ?thesis unfolding ev by auto
  qed
  have present: "video_set c key v = c\<lparr>vcache := map_delete (vcache c) key @ [(key, v)]\<rparr>"
    if "map_has (vcache c) key"
    using that by (simp add: video_set_def Let_def map_set_def map_has_map_delete)
  have absent: "video_set c key v
      = (evictIfNeeded c)\<lparr>vcache := vcache (evictIfNeeded c) @ [(key, v)]\<rparr>"
    if "\<not> map_has (vcache c) key"
  proof -
    from that sub have "\<not> map_has (vcache (evictIfNeeded c)) key"
      by (auto simp: map_has_iff)
    with that show ?thesis by (simp add: video_set_def Let_def map_set_def)
  qed
  from present absent ev tot show ?thesis by (simp add: Let_def)
qed

lemma uhd_videos_distinct: "distinct (map fst (uhd_videos n))"
proof -
  have "inj_on video_key (set [0..<n])" by (rule inj_onI) (rule video_key_inj)
  then have "distinct (map video_key [0..<n])" by (simp add: distinct_map)
  moreover have "map fst (uhd_videos n) = map video_key [0..<n]"
    by (simp add: uhd_videos_def comp_def)
  ultimately show ?thesis by simp
qed

lemma entriesToEvict_79: "entriesToEvict 79 = 16"
  by (simp add: entriesToEvict_def round53_def Let_def)

theorem video_set_eviction_pass_witness:
  "distinct (map fst (vcache (video_sets videoMetadataCache0 (uhd_videos 79)))) \<and>
   \<not> map_has (vcache (video_sets videoMetadataCache0 (uhd_videos 79))) (video_key 79) \<and>
   vcache (video_set (video_sets videoMetadataCache0 (uhd_videos 79)) (video_key 79) uhd_metadata)
     = drop 16 (uhd_videos 79) @ [(video_key 79, uhd_metadata)]"
proof -
  let ?c = "video_sets videoMetadataCache0 (uhd_videos 79)"
  have st: "?c = videoMetadataCache0\<lparr>vcache := uhd_videos 79\<rparr>"
    by (rule uhd_videos_cached) simp
  have h1: "distinct (map fst (vcache ?c))" unfolding st by (simp add: uhd_videos_distinct)
  have h2: "\<not> map_has (vcache ?c) (video_key 79)" unfolding st by (simp add: video_key_fresh)
  have len: "length (vcache ?c) = 79" unfolding st by (simp add: uhd_videos_def)
  have mx: "vmaxSize ?c = 200" "maxMemoryMB ?c = 150"
    unfolding st
    by (simp_all add: videoMetadataCache0_def new_VideoMetadataLRUCache_def
        VIDEO_METADATA_CACHE_SIZE_def VIDEO_METADATA_MEMORY_LIMIT_MB_def)
  have same: "?c\<lparr>vcache := drop (length (vcache ?c) - (vmaxSize ?c - 1)) (vcache ?c)\<rparr> = ?c"
    by (simp add: len mx)
  have over: "getMemoryUsage ?c > of_nat (maxMemoryMB ?c)"
    unfolding st by (rule uhd_79_over_ceiling)
  have vc: "vcache ?c = uhd_videos 79" unfolding st by simp
  from video_set_eviction_pass [OF h1, of "video_key 79" uhd_metadata] h2
  have "evictIfNeeded ?c = ?c\<lparr>vcache := drop 16 (vcache ?c)\<rparr>"
    and "video_set ?c (video_key 79) uhd_metadata
      = (evictIfNeeded ?c)\<lparr>vcache := vcache (evictIfNeeded ?c) @ [(video_key 79, uhd_metadata)]\<rparr>"
    unfolding same Let_def using over by (simp_all add: len entriesToEvict_79)
  then have "vcache (video_set ?c (video_key 79) uhd_metadata)
      = drop 16 (uhd_videos 79) @ [(video_key 79, uhd_metadata)]"
    by (simp add: vc)
  with h1 h2 show ?thesis by simp
qed

end
